theory Spec2Isabelle
  imports Main "HOL-Library.Multiset"
begin

section \<open>Python values, errors and list operations\<close>

text \<open>
  The scripts are Python 2. An uncaught exception or a call of \<open>sys.exit()\<close> ends the
  computation; it is the \<open>Inl\<close> branch of a sum. \<open>NotBound\<close> is the solver's fatal error
  when \<open>Value()\<close> is asked of a variable that is not bound.
\<close>

datatype error = IndexError | ValueError | TypeError | SystemExit | NotBound

text \<open>
  \<open>py_norm n idx\<close>: the position that Python's \<open>L[idx]\<close> and \<open>L.pop(idx)\<close> address in
  a list of length \<open>n\<close>; negative indices count from the end, anything else raises.
\<close>

definition py_norm :: "nat \<Rightarrow> int \<Rightarrow> nat option" where
  "py_norm n idx =
     (if 0 \<le> idx \<and> idx < int n then Some (nat idx)
      else if - int n \<le> idx \<and> idx < 0 then Some (nat (int n + idx))
      else None)"

definition py_get :: "'a list \<Rightarrow> int \<Rightarrow> error + 'a" where
  "py_get xs idx = (case py_norm (length xs) idx of None \<Rightarrow> Inl IndexError | Some i \<Rightarrow> Inr (xs ! i))"

text \<open>\<open>L.index(x)\<close>: the first position of \<open>x\<close>, or \<open>ValueError\<close>.\<close>

fun py_index :: "'a list \<Rightarrow> 'a \<Rightarrow> error + nat" where
  "py_index [] x = Inl ValueError"
| "py_index (y # ys) x =
     (if y = x then Inr 0 else (case py_index ys x of Inl e \<Rightarrow> Inl e | Inr k \<Rightarrow> Inr (Suc k)))"

text \<open>A comprehension whose body may raise: the first failure ends it.\<close>

fun map_err :: "('a \<Rightarrow> error + 'b) \<Rightarrow> 'a list \<Rightarrow> error + 'b list" where
  "map_err f [] = Inr []"
| "map_err f (x # xs) =
     (case f x of Inl e \<Rightarrow> Inl e
      | Inr y \<Rightarrow> (case map_err f xs of Inl e \<Rightarrow> Inl e | Inr ys \<Rightarrow> Inr (y # ys)))"

section \<open>Fragment selection: \<open>random_draw\<close>\<close>

text \<open>
  The random source is an object with a method \<open>randint(a, b)\<close>. It is modelled by its
  state \<open>'g\<close> and a function giving the drawn integer and the next state. The contract
  of \<open>randint\<close> (the result lies in \<open>[a, b]\<close>) is a separate predicate.
\<close>

type_synonym 'g randint = "'g \<Rightarrow> int \<Rightarrow> int \<Rightarrow> int \<times> 'g"

definition randint_ok :: "'g randint \<Rightarrow> bool" where
  "randint_ok randint = (\<forall>g a b. a \<le> b \<longrightarrow> a \<le> fst (randint g a b) \<and> fst (randint g a b) \<le> b)"

text \<open>
  The loop shared by both versions of \<open>random_draw\<close>:
  \<^verbatim>\<open>
    while len(R) < size and len(L) > 0:
      idx = rand.randint(0, len(L)-1)
      R.append(L[idx])
      L.pop(idx)
  \<close>
  The state is the pair of list objects \<open>L\<close>, \<open>R\<close> and the random source.
\<close>

function draw_loop :: "'g randint \<Rightarrow> int \<Rightarrow> 'a list \<Rightarrow> 'a list \<Rightarrow> 'g \<Rightarrow> error + ('a list \<times> 'a list \<times> 'g)" where
  "draw_loop randint sz L R g =
     (if int (length R) < sz \<and> length L > 0 then
        (case randint g 0 (int (length L) - 1) of
           (idx, g') \<Rightarrow>
             (case py_norm (length L) idx of
                None \<Rightarrow> Inl IndexError
              | Some i \<Rightarrow> draw_loop randint sz (take i L @ drop (Suc i) L) (R @ [L ! i]) g'))
      else Inr (L, R, g))"
  by pat_completeness auto
termination
  by (relation "measure (\<lambda>(randint, sz, L, R, g). length L)")
     (auto simp: py_norm_def split: if_splits)

declare draw_loop.simps [simp del]

text \<open>A random source for the examples: it always draws the upper end of the range.\<close>

definition rnd_last :: "unit randint" where
  "rnd_last = (\<lambda>g a b. (b, g))"

text \<open>
  List objects live in a store and are passed by reference: an address is a position
  in the store, and a new object is allocated at the end.
\<close>

type_synonym 'a heap = "'a list list"

definition alloc :: "'a heap \<Rightarrow> 'a list \<Rightarrow> nat \<times> 'a heap" where
  "alloc h v = (length h, h @ [v])"

text \<open>
  \<open>random_draw\<close> of shiftsched\_lns.py: \<open>R = []\<close> is a new object, the loop works on
  the caller's object \<open>L\<close> itself. The loop changes both objects in place; here it runs
  on their contents, which are put back in the store at the end. The result is the
  address of \<open>R\<close>, the store and the random source afterwards.
\<close>

definition random_draw_lns :: "'g randint \<Rightarrow> 'a heap \<Rightarrow> nat \<Rightarrow> int \<Rightarrow> 'g \<Rightarrow> error + (nat \<times> 'a heap \<times> 'g)" where
  "random_draw_lns randint h L sz g =
     (case alloc h [] of
        (R, h1) \<Rightarrow>
          (case draw_loop randint sz (h1 ! L) (h1 ! R) g of
             Inl e \<Rightarrow> Inl e
           | Inr (vL, vR, g') \<Rightarrow> Inr (R, h1[L := vL, R := vR], g')))"

text \<open>
  \<open>random_draw\<close> of wt.py: the first statement \<open>L = [v for v in L]\<close> binds the local
  name to a new object holding a copy; the loop works on that copy and on \<open>R\<close>.
\<close>

definition random_draw_wt :: "'g randint \<Rightarrow> 'a heap \<Rightarrow> nat \<Rightarrow> int \<Rightarrow> 'g \<Rightarrow> error + (nat \<times> 'a heap \<times> 'g)" where
  "random_draw_wt randint h L sz g =
     (case alloc h (map (\<lambda>v. v) (h ! L)) of
        (L', h1) \<Rightarrow>
          (case alloc h1 [] of
             (R, h2) \<Rightarrow>
               (case draw_loop randint sz (h2 ! L') (h2 ! R) g of
                  Inl e \<Rightarrow> Inl e
                | Inr (vL, vR, g') \<Rightarrow> Inr (R, h2[L' := vL, R := vR], g'))))"

section \<open>wt.py: the weighted-tardiness model and its search\<close>

text \<open>An activity is a dictionary with the keys \<open>dur\<close>, \<open>dln\<close> and \<open>wgt\<close>.\<close>

record act =
  dur :: int
  dln :: int
  wgt :: int

subsection \<open>The cost helpers\<close>

text \<open>\<open>sum(acts[j]['dur'] for j in js)\<close>\<close>

definition sum_dur :: "act list \<Rightarrow> int list \<Rightarrow> error + int" where
  "sum_dur acts js =
     (case map_err (\<lambda>j. py_get acts j) js of Inl e \<Rightarrow> Inl e | Inr as \<Rightarrow> Inr (sum_list (map dur as)))"

text \<open>
  The loop that both helpers start with:
  \<^verbatim>\<open>
    for i in range(n):
        idx = sbest.index(i)
        starts.append(sum(acts[j]['dur'] for j in sbest[0:idx]))
  \<close>
\<close>

definition start_of :: "act list \<Rightarrow> int list \<Rightarrow> nat \<Rightarrow> error + int" where
  "start_of acts sbest i =
     (case py_index sbest (int i) of Inl e \<Rightarrow> Inl e | Inr idx \<Rightarrow> sum_dur acts (take idx sbest))"

definition starts_of :: "act list \<Rightarrow> int list \<Rightarrow> error + int list" where
  "starts_of acts sbest = map_err (start_of acts sbest) [0..<length acts]"

definition compute_costs :: "act list \<Rightarrow> int list \<Rightarrow> error + int list" where
  "compute_costs acts sbest =
     (case starts_of acts sbest of
        Inl e \<Rightarrow> Inl e
      | Inr starts \<Rightarrow> Inr (map (\<lambda>(i, a). max 0 (starts ! i - dln a) * wgt a) (enumerate 0 acts)))"

definition compute_weighted_slack :: "act list \<Rightarrow> int list \<Rightarrow> error + int list" where
  "compute_weighted_slack acts sbest =
     (case starts_of acts sbest of
        Inl e \<Rightarrow> Inl e
      | Inr starts \<Rightarrow> Inr (map (\<lambda>(i, a). (starts ! i - dln a) * wgt a) (enumerate 0 acts)))"

subsection \<open>The model handed to the solver\<close>

text \<open>
  The constraint solver is imported (OR-tools); the script only posts constraints and
  reads solutions back. A posted constraint is a value; interval variable \<open>X[i]\<close> and
  tardiness variable \<open>T[i]\<close> are named by their index.
\<close>

datatype constr =
    DisjunctiveConstraint "nat list"
  | TemporalDisjunction nat nat
  | TardinessIs nat int
  | ObjectiveIs "int list"
  | StartsAfterEnd nat nat
  | ZLess int
  | StartIs nat

datatype phase = IntervalSetTimesForward | ChooseMinSizeAssignMin

datatype monitor = Minimize int | TimeLimit int

record problem =
  durations :: "int list"
  eoh :: int
  posted :: "constr list"
  decision_builder :: phase
  search_monitors :: "monitor list"

text \<open>
  What the script can read at a solution: \<open>X[i].StartMin()\<close>, the tardiness terms and
  \<open>Z.Value()\<close>.
\<close>

record solution =
  start_min :: "nat \<Rightarrow> int"
  tardiness :: "nat \<Rightarrow> int"
  z_value :: int

text \<open>
  A search: the solutions that successive calls of \<open>NextSolution()\<close> deliver before it
  returns false, and \<open>(Branches(), WallTime())\<close> as read after \<open>EndSearch()\<close> when
  \<open>NextSolution()\<close> was called the given number of times.
\<close>

record outcome =
  solutions :: "solution list"
  stats :: "nat \<Rightarrow> int \<times> int"

type_synonym engine = "problem \<Rightarrow> outcome"

text \<open>\<open>sys.maxint\<close> of a 64-bit CPython 2.\<close>

definition maxint :: int where
  "maxint = 2 ^ 63 - 1"

definition end_of :: "problem \<Rightarrow> solution \<Rightarrow> nat \<Rightarrow> int" where
  "end_of p s i = start_min s i + durations p ! i"

text \<open>The meaning of the posted constraints (the solver's documented semantics).\<close>

fun holds :: "problem \<Rightarrow> solution \<Rightarrow> constr \<Rightarrow> bool" where
  "holds p s (DisjunctiveConstraint X) =
     (\<forall>i \<in> set X. \<forall>j \<in> set X. i \<noteq> j \<longrightarrow> end_of p s i \<le> start_min s j \<or> end_of p s j \<le> start_min s i)"
| "holds p s (TemporalDisjunction i j) =
     (end_of p s i \<le> start_min s j \<or> end_of p s j \<le> start_min s i)"
| "holds p s (TardinessIs i d) = (tardiness s i = max (end_of p s i - d) 0)"
| "holds p s (ObjectiveIs ws) = (z_value s = (\<Sum>(i, w) \<leftarrow> enumerate 0 ws. tardiness s i * w))"
| "holds p s (StartsAfterEnd j i) = (end_of p s i \<le> start_min s j)"
| "holds p s (ZLess b) = (z_value s < b)"
| "holds p s (StartIs i) = True"

definition feasible :: "problem \<Rightarrow> solution \<Rightarrow> bool" where
  "feasible p s =
     ((\<forall>i \<in> set [0..<length (durations p)].
          0 \<le> start_min s i \<and> start_min s i \<le> eoh p \<and> 0 \<le> tardiness s i \<and> tardiness s i \<le> maxint)
      \<and> 0 \<le> z_value s \<and> z_value s \<le> maxint
      \<and> (\<forall>c \<in> set (posted p). holds p s c))"

text \<open>The one assumption on the imported solver: what it delivers satisfies the model.\<close>

definition engine_sound :: "engine \<Rightarrow> bool" where
  "engine_sound eng = (\<forall>p. \<forall>s \<in> set (solutions (eng p)). feasible p s)"

subsection \<open>\<open>solve\<close>\<close>

text \<open>The lines \<open>solve\<close> prints (the time and branch count of a solution line are left out).\<close>

datatype msg =
    SolutionFound int
  | Sequence "int list"
  | NoSolutionFound
  | BestSolutionFound int
  | NumberOfBranches int
  | ComputationTime int
  | TimeLimitExceeded
  | LnsIteration int
  | KnownOptimumFound

definition resource_constraints :: "nat \<Rightarrow> int \<Rightarrow> int list option \<Rightarrow> error + constr list" where
  "resource_constraints n res_mode preorder =
     (if res_mode = 0 then Inr [DisjunctiveConstraint [0..<n]]
      else if res_mode = 1 then
        Inr (concat (map (\<lambda>i. concat (map (\<lambda>j.
               if (case preorder of None \<Rightarrow> True | Some po \<Rightarrow> int i \<notin> set po \<or> int j \<notin> set po)
               then [TemporalDisjunction i j] else []) [i + 1..<n])) [0..<n]))
      else Inl SystemExit)"

definition tardiness_constraints :: "act list \<Rightarrow> constr list" where
  "tardiness_constraints acts = map (\<lambda>(i, a). TardinessIs i (dln a)) (enumerate 0 acts)"

text \<open>
  \<^verbatim>\<open>
    if preorder is not None:
        for i, j in zip(preorder[:-1], preorder[1:]):
            slv.Add(X[j].StartsAfterEnd(X[i]))
  \<close>
\<close>

definition preorder_constraints :: "nat \<Rightarrow> int list option \<Rightarrow> error + constr list" where
  "preorder_constraints n preorder =
     (case preorder of
        None \<Rightarrow> Inr []
      | Some po \<Rightarrow>
          map_err (\<lambda>(i, j).
            case py_get [0..<n] j of Inl e \<Rightarrow> Inl e
            | Inr xj \<Rightarrow> (case py_get [0..<n] i of Inl e \<Rightarrow> Inl e | Inr xi \<Rightarrow> Inr (StartsAfterEnd xj xi)))
          (zip (butlast po) (tl po)))"

definition bound_constraint :: "int option \<Rightarrow> constr list" where
  "bound_constraint old_zbest = (case old_zbest of None \<Rightarrow> [] | Some b \<Rightarrow> [ZLess b])"

definition search_strategy :: "nat \<Rightarrow> int \<Rightarrow> error + (phase \<times> constr list)" where
  "search_strategy n strategy =
     (if strategy = 0 then Inr (IntervalSetTimesForward, [])
      else if strategy = 1 then Inr (ChooseMinSizeAssignMin, map StartIs [0..<n])
      else Inl SystemExit)"

text \<open>Everything \<open>solve\<close> does before \<open>NewSearch\<close>: the model, the strategy, the monitors.\<close>

definition build_model :: "act list \<Rightarrow> int option \<Rightarrow> int \<Rightarrow> int \<Rightarrow> int list option \<Rightarrow> int option \<Rightarrow> error + problem" where
  "build_model acts time_limit strategy res_mode preorder old_zbest =
     (let n = length acts in
      case resource_constraints n res_mode preorder of
        Inl e \<Rightarrow> Inl e
      | Inr res \<Rightarrow>
          (case preorder_constraints n preorder of
             Inl e \<Rightarrow> Inl e
           | Inr pre \<Rightarrow>
               (case search_strategy n strategy of
                  Inl e \<Rightarrow> Inl e
                | Inr (ph, link) \<Rightarrow>
                    Inr \<lparr> durations = map dur acts,
                          eoh = sum_list (map dur acts),
                          posted = res @ tardiness_constraints acts @ [ObjectiveIs (map wgt acts)]
                                   @ pre @ bound_constraint old_zbest @ link,
                          decision_builder = ph,
                          search_monitors = Minimize 1 #
                            (case time_limit of None \<Rightarrow> [] | Some lim \<Rightarrow> [TimeLimit lim]) \<rparr>)))"

text \<open>
  The solution loop:
  \<^verbatim>\<open>
    while slv.NextSolution():
        zbest = Z.Value()
        sbest = sorted(range(n), key=lambda i: X[i].StartMin())
        ...
        scnt += 1
        if stop_after is not None and scnt >= stop_after:
            break
  \<close>
  The result also tells whether the loop was left by \<open>break\<close>.
\<close>

fun solution_loop :: "nat \<Rightarrow> int option \<Rightarrow> solution list \<Rightarrow> int option \<Rightarrow> int list option \<Rightarrow> int \<Rightarrow> msg list
    \<Rightarrow> int option \<times> int list option \<times> int \<times> bool \<times> msg list" where
  "solution_loop n stop_after [] zb sb scnt out = (zb, sb, scnt, False, out)"
| "solution_loop n stop_after (s # rest) zb sb scnt out =
     (let zb' = z_value s;
          sb' = map int (sort_key (\<lambda>i. start_min s i) [0..<n]);
          out' = out @ [SolutionFound zb', Sequence sb']
      in if (case stop_after of None \<Rightarrow> False | Some k \<Rightarrow> scnt + 1 \<ge> k)
         then (Some zb', Some sb', scnt + 1, True, out')
         else solution_loop n stop_after rest (Some zb') (Some sb') (scnt + 1) out')"

text \<open>
  \<open>time > time_limit\<close> where \<open>time_limit\<close> may be \<open>None\<close>: CPython 2 orders \<open>None\<close>
  below every number, so the comparison with \<open>None\<close> is true.
\<close>

definition py2_gt :: "int \<Rightarrow> int option \<Rightarrow> bool" where
  "py2_gt t lim = (case lim of None \<Rightarrow> True | Some l \<Rightarrow> t > l)"

definition solve :: "engine \<Rightarrow> act list \<Rightarrow> int option \<Rightarrow> int \<Rightarrow> int \<Rightarrow> int list option \<Rightarrow> int option \<Rightarrow> int option
    \<Rightarrow> error + (int \<times> int \<times> int option \<times> int list option \<times> msg list)" where
  "solve slv acts time_limit strategy res_mode preorder old_zbest stop_after =
     (case build_model acts time_limit strategy res_mode preorder old_zbest of
        Inl e \<Rightarrow> Inl e
      | Inr p \<Rightarrow>
          (case solution_loop (length acts) stop_after (solutions (slv p)) None None 0 [] of
             (zb, sb, scnt, broke, out) \<Rightarrow>
               (case stats (slv p) (nat scnt + (if broke then 0 else 1)) of
                  (branches, wall) \<Rightarrow>
                    (let time = max 1 wall;
                         out1 = out @ [case zb of None \<Rightarrow> NoSolutionFound | Some z \<Rightarrow> BestSolutionFound z]
                                @ [NumberOfBranches branches, ComputationTime time];
                         out2 = (if py2_gt time time_limit then out1 @ [TimeLimitExceeded] else out1)
                      in Inr (time, branches, zb, sb, out2)))))"

subsection \<open>The main script: a first solution, then the LNS loop\<close>

definition global_time_limit :: int where
  "global_time_limit = 40000"

definition local_time_limit :: int where
  "local_time_limit = 2000"

definition neighborhood_size :: int where
  "neighborhood_size = 5"

record 'g lns_state =
  lns_time :: int
  lns_branches :: int
  lns_zbest :: "int option"
  lns_sbest :: "int list option"
  lns_rng :: 'g
  lns_cnt :: int
  lns_out :: "msg list"

text \<open>
  \<^verbatim>\<open>
    acts = sorted(acts, key=lambda a: 0)
    time, branches, zbest, sbest = solve(acts, time_limit=None, strategy=0,
                                         stop_after=1, res_mode=0)
  \<close>
  The random source is created afterwards, in its seeded state \<open>g0\<close>.
\<close>

definition first_solution :: "engine \<Rightarrow> act list \<Rightarrow> 'g \<Rightarrow> error + (act list \<times> 'g lns_state)" where
  "first_solution slv data_acts g0 =
     (let acts = sort_key (\<lambda>a. (0::int)) data_acts in
      case solve slv acts None 0 0 None None (Some 1) of
        Inl e \<Rightarrow> Inl e
      | Inr (time, branches, zb, sb, out) \<Rightarrow>
          Inr (acts, \<lparr> lns_time = time, lns_branches = branches, lns_zbest = zb, lns_sbest = sb,
                       lns_rng = g0, lns_cnt = 0, lns_out = out \<rparr>))"

text \<open>
  The body of the LNS loop up to the update of the incumbent, with the size of the
  neighbourhood as a parameter:
  \<^verbatim>\<open>
    allacts = range(len(acts))
    relaxed = random_draw(allacts, neighborhood_size, rng)
    preorder = [i for i in sbest if i not in relaxed]
    lt, lb, lz, ls = solve(acts, time_limit=local_time_limit, strategy=0, res_mode=0,
                           preorder=preorder, old_zbest=zbest, stop_after=1)
    cnt += 1; time += lt; branches += lb
    if lz is not None:
        zbest = lz
        sbest = ls
  \<close>
  Iterating over \<open>sbest\<close> when it is \<open>None\<close> raises \<open>TypeError\<close>.
\<close>

definition lns_relaxed :: "'g randint \<Rightarrow> act list \<Rightarrow> int \<Rightarrow> 'g \<Rightarrow> error + (int list \<times> 'g)" where
  "lns_relaxed randint acts nsize g =
     (let allacts = map int [0..<length acts] in
      case random_draw_wt randint [allacts] 0 nsize g of
        Inl e \<Rightarrow> Inl e
      | Inr (R, h, g') \<Rightarrow> Inr (h ! R, g'))"

definition lns_preorder :: "int list option \<Rightarrow> int list \<Rightarrow> error + int list" where
  "lns_preorder sb relaxed =
     (case sb of None \<Rightarrow> Inl TypeError | Some sbest \<Rightarrow> Inr (filter (\<lambda>i. i \<notin> set relaxed) sbest))"

definition lns_iteration :: "engine \<Rightarrow> 'g randint \<Rightarrow> act list \<Rightarrow> int \<Rightarrow> 'g lns_state \<Rightarrow> error + 'g lns_state" where
  "lns_iteration slv randint acts nsize s =
     (case lns_relaxed randint acts nsize (lns_rng s) of
        Inl e \<Rightarrow> Inl e
      | Inr (relaxed, g') \<Rightarrow>
          (case lns_preorder (lns_sbest s) relaxed of
             Inl e \<Rightarrow> Inl e
           | Inr preorder \<Rightarrow>
               (case solve slv acts (Some local_time_limit) 0 0 (Some preorder) (lns_zbest s) (Some 1) of
                  Inl e \<Rightarrow> Inl e
                | Inr (lt, lb, lz, ls, out) \<Rightarrow>
                    Inr \<lparr> lns_time = lns_time s + lt,
                          lns_branches = lns_branches s + lb,
                          lns_zbest = (if lz \<noteq> None then lz else lns_zbest s),
                          lns_sbest = (if lz \<noteq> None then ls else lns_sbest s),
                          lns_rng = g',
                          lns_cnt = lns_cnt s + 1,
                          lns_out = lns_out s @ [LnsIteration (lns_cnt s)] @ out \<rparr>)))"

text \<open>
  Every call of \<open>solve\<close> reports a time of at least one millisecond (\<open>time = max(1, time)\<close>),
  so every iteration moves the clock of the LNS loop forward.
\<close>

lemma solve_time_pos:
  "solve slv acts time_limit strategy res_mode preorder old_zbest stop_after = Inr (t, b, zb, sb, out) \<Longrightarrow> 1 \<le> t"
  by (auto simp: solve_def Let_def split: sum.splits prod.splits if_splits)

lemma lns_iteration_time:
  "lns_iteration slv randint acts nsize s = Inr s' \<Longrightarrow> lns_time s < lns_time s'"
  by (auto simp: lns_iteration_def split: sum.splits prod.splits dest!: solve_time_pos)

text \<open>
  \<^verbatim>\<open>
    while time < global_time_limit:
        ...
        if zbest == data['best']:
            print '=== Known optimum found! Stopping for convenience'
            break
  \<close>
\<close>

function lns_loop :: "engine \<Rightarrow> 'g randint \<Rightarrow> act list \<Rightarrow> int \<Rightarrow> int \<Rightarrow> 'g lns_state \<Rightarrow> error + 'g lns_state" where
  "lns_loop slv randint acts nsize best s =
     (if lns_time s < global_time_limit then
        (case lns_iteration slv randint acts nsize s of
           Inl e \<Rightarrow> Inl e
         | Inr s' \<Rightarrow>
             if lns_zbest s' = Some best then Inr (s'\<lparr>lns_out := lns_out s' @ [KnownOptimumFound]\<rparr>)
             else lns_loop slv randint acts nsize best s')
      else Inr s)"
  by pat_completeness auto
termination
  by (relation "measure (\<lambda>(slv, randint, acts, nsize, best, s). nat (global_time_limit - lns_time s))")
     (auto dest: lns_iteration_time)

declare lns_loop.simps [simp del]

definition wt_main :: "engine \<Rightarrow> 'g randint \<Rightarrow> act list \<Rightarrow> int \<Rightarrow> 'g \<Rightarrow> error + 'g lns_state" where
  "wt_main slv randint data_acts best g0 =
     (case first_solution slv data_acts g0 of
        Inl e \<Rightarrow> Inl e
      | Inr (acts, s0) \<Rightarrow> lns_loop slv randint acts neighborhood_size best s0)"

subsection \<open>An engine and an instance for the examples\<close>

text \<open>
  The engine tries a given list of candidate schedules in order and delivers those that
  satisfy the model; every search is reported to take \<open>wall\<close> milliseconds.
\<close>

definition schedule :: "int list \<Rightarrow> int list \<Rightarrow> int \<Rightarrow> solution" where
  "schedule st td z = \<lparr> start_min = (\<lambda>i. st ! i), tardiness = (\<lambda>i. td ! i), z_value = z \<rparr>"

definition filter_engine :: "solution list \<Rightarrow> int \<Rightarrow> engine" where
  "filter_engine cands wall p = \<lparr> solutions = filter (feasible p) cands, stats = (\<lambda>k. (int k, wall)) \<rparr>"

definition ex_acts :: "act list" where
  "ex_acts = [\<lparr>dur = 2, dln = 1, wgt = 1\<rparr>, \<lparr>dur = 1, dln = 1, wgt = 1\<rparr>]"

definition ex_cands :: "solution list" where
  "ex_cands = [schedule [0, 2] [1, 2] 3, schedule [1, 0] [2, 0] 2]"

text \<open>A state of the LNS loop: the incumbent is the first candidate schedule.\<close>

definition ex_state :: "unit lns_state" where
  "ex_state = \<lparr> lns_time = 15000, lns_branches = 1, lns_zbest = Some 3, lns_sbest = Some [0, 1],
                 lns_rng = (), lns_cnt = 0, lns_out = [] \<rparr>"

section \<open>lotsizing.py: the custom decision builders\<close>

text \<open>
  An integer variable of the solver is modelled by its current domain, the list of the
  values still possible (never empty during search). The builders use it only through
  the methods below.
\<close>

type_synonym intvar = "int list"

definition var_size :: "intvar \<Rightarrow> nat" where
  "var_size d = card (set d)"

definition var_bound :: "intvar \<Rightarrow> bool" where
  "var_bound d = (var_size d = 1)"

definition var_min :: "intvar \<Rightarrow> int" where
  "var_min d = Min (set d)"

definition var_max :: "intvar \<Rightarrow> int" where
  "var_max d = Max (set d)"

definition var_contains :: "intvar \<Rightarrow> int \<Rightarrow> bool" where
  "var_contains d k = (k \<in> set d)"

definition var_value :: "intvar \<Rightarrow> error + int" where
  "var_value d = (if var_bound d then Inr (var_min d) else Inl NotBound)"

text \<open>
  \<open>vs[i]\<close> for a list of variables: the variable object is named by its position, with
  Python's treatment of the index.
\<close>

definition var_at :: "intvar list \<Rightarrow> int \<Rightarrow> error + nat" where
  "var_at vs i = (case py_norm (length vs) i of None \<Rightarrow> Inl IndexError | Some k \<Rightarrow> Inr k)"

text \<open>\<open>vs[i].Bound()\<close>, \<open>vs[i].Size()\<close>, \<open>vs[i].Value()\<close>.\<close>

definition bound_at :: "intvar list \<Rightarrow> int \<Rightarrow> error + bool" where
  "bound_at vs i = (case var_at vs i of Inl e \<Rightarrow> Inl e | Inr k \<Rightarrow> Inr (var_bound (vs ! k)))"

definition size_at :: "intvar list \<Rightarrow> int \<Rightarrow> error + nat" where
  "size_at vs i = (case var_at vs i of Inl e \<Rightarrow> Inl e | Inr k \<Rightarrow> Inr (var_size (vs ! k)))"

definition value_at :: "intvar list \<Rightarrow> int \<Rightarrow> error + int" where
  "value_at vs i = (case var_at vs i of Inl e \<Rightarrow> Inl e | Inr k \<Rightarrow> var_value (vs ! k))"

text \<open>A decision names the variable by the list it belongs to and its position there.\<close>

datatype varref = Succ nat | Date nat

datatype decision = AssignVariableValue varref int | AssignVariableValueOrFail varref int

subsection \<open>\<open>SetSuccBasedOnDates\<close>\<close>

text \<open>
  \<^verbatim>\<open>
    for k, i in enumerate(idx):
        if not self.succ[i].Bound():
            target = i; target_pos = k
            break
  \<close>
  The loop over the enumerated list, given \<open>self.succ[i].Bound()\<close> as a function of \<open>i\<close>.
\<close>

fun first_unbound :: "(int \<Rightarrow> error + bool) \<Rightarrow> (nat \<times> nat) list \<Rightarrow> error + (nat \<times> nat) option" where
  "first_unbound bnd [] = Inr None"
| "first_unbound bnd ((k, i) # rest) =
     (case bnd (int i) of
        Inl e \<Rightarrow> Inl e
      | Inr b \<Rightarrow> if \<not> b then Inr (Some (k, i)) else first_unbound bnd rest)"

definition SetSuccBasedOnDates_Next :: "intvar list \<Rightarrow> intvar list \<Rightarrow> error + decision option" where
  "SetSuccBasedOnDates_Next succ date =
     (case map_err (\<lambda>i. value_at date (int i)) [0..<length date] of
        Inl e \<Rightarrow> Inl e
      | Inr vals \<Rightarrow>
          (let idx = sort_key (\<lambda>i. vals ! i) [0..<length date] in
           case first_unbound (bound_at succ) (enumerate 0 idx) of
             Inl e \<Rightarrow> Inl e
           | Inr None \<Rightarrow> Inr None
           | Inr (Some (target_pos, target)) \<Rightarrow>
               if target_pos = length date then
                 (case py_get idx 0 of
                    Inl e \<Rightarrow> Inl e
                  | Inr v \<Rightarrow> Inr (Some (AssignVariableValueOrFail (Succ target) (int v))))
               else
                 (case py_get idx (int target_pos + 1) of
                    Inl e \<Rightarrow> Inl e
                  | Inr v \<Rightarrow> Inr (Some (AssignVariableValueOrFail (Succ target) (int v))))))"

subsection \<open>\<open>SetSuccByCost\<close>\<close>

text \<open>
  \<^verbatim>\<open>
    for i in idx:
        cur_size = self.succ[i].Size()
        if tgt is None or (cur_size < tgt_size):
            tgt = i; tgt_size = cur_size
  \<close>
  The state of the loop is the pair \<open>(tgt, tgt_size)\<close>, or \<open>None\<close>.
\<close>

fun min_size_loop :: "(int \<Rightarrow> error + nat) \<Rightarrow> int list \<Rightarrow> (int \<times> nat) option \<Rightarrow> error + (int \<times> nat) option" where
  "min_size_loop sz [] tgt = Inr tgt"
| "min_size_loop sz (i # rest) tgt =
     (case sz i of
        Inl e \<Rightarrow> Inl e
      | Inr cur_size \<Rightarrow>
          if (case tgt of None \<Rightarrow> True | Some (t, tgt_size) \<Rightarrow> cur_size < tgt_size)
          then min_size_loop sz rest (Some (i, cur_size))
          else min_size_loop sz rest tgt)"

text \<open>Python's \<open><\<close> on two lists of numbers: lexicographic, a proper prefix is smaller.\<close>

fun py_list_lt :: "int list \<Rightarrow> int list \<Rightarrow> bool" where
  "py_list_lt [] [] = False"
| "py_list_lt [] (y # ys) = True"
| "py_list_lt (x # xs) [] = False"
| "py_list_lt (x # xs) (y # ys) = (if x = y then py_list_lt xs ys else x < y)"

text \<open>
  \<^verbatim>\<open>
    for k in range(var.Min(), var.Max()+1):
        if var.Contains(k):
            cur_cost = self.ext_tcosts[k]
            if val is None or cur_cost < val_tcost:
                val = k; val_tcost = cur_cost
  \<close>
  \<open>ext_tcosts\<close> is the matrix built in the script, so \<open>ext_tcosts[k]\<close> is its row \<open>k\<close>.
  A domain is never empty during search, so the loop always finds a value; \<open>None\<close> as
  the value of a decision would be a \<open>TypeError\<close>.
\<close>

fun min_cost_loop :: "(int \<Rightarrow> bool) \<Rightarrow> int list list \<Rightarrow> int list \<Rightarrow> (int \<times> int list) option
    \<Rightarrow> error + (int \<times> int list) option" where
  "min_cost_loop cont ext_tcosts [] val = Inr val"
| "min_cost_loop cont ext_tcosts (k # rest) val =
     (if cont k then
        (case py_get ext_tcosts k of
           Inl e \<Rightarrow> Inl e
         | Inr cur_cost \<Rightarrow>
             if (case val of None \<Rightarrow> True | Some (v, val_tcost) \<Rightarrow> py_list_lt cur_cost val_tcost)
             then min_cost_loop cont ext_tcosts rest (Some (k, cur_cost))
             else min_cost_loop cont ext_tcosts rest val)
      else min_cost_loop cont ext_tcosts rest val)"

definition SetSuccByCost_Next :: "intvar list \<Rightarrow> int list list \<Rightarrow> error + decision option" where
  "SetSuccByCost_Next succ ext_tcosts =
     (let idx = filter (\<lambda>i. \<not> var_bound (succ ! i)) [0..<length succ] in
      if length idx = 0 then Inr None
      else
        (case min_size_loop (size_at succ) (map int idx) None of
           Inl e \<Rightarrow> Inl e
         | Inr None \<Rightarrow> Inl TypeError
         | Inr (Some (tgt, tgt_size)) \<Rightarrow>
             (case var_at succ tgt of
                Inl e \<Rightarrow> Inl e
              | Inr t \<Rightarrow>
                  (case min_cost_loop (var_contains (succ ! t)) ext_tcosts
                          [var_min (succ ! t)..var_max (succ ! t)] None of
                     Inl e \<Rightarrow> Inl e
                   | Inr None \<Rightarrow> Inl TypeError
                   | Inr (Some (val, val_tcost)) \<Rightarrow> Inr (Some (AssignVariableValue (Succ t) val))))))"

section \<open>The search engine with branch and bound\<close>

text \<open>
  The scripts run their searches on the imported solver: \<open>slv.NewSearch\<close> with a
  \<open>Minimize(z, 1)\<close> monitor, then \<open>slv.NextSolution()\<close> until it returns false. The solver
  is not part of the sources; this section models it from its specification.
\<close>

text \<open>
  Modelled from the spec: the Domain Store (the imported solver's state is not in the
  sources). It maps each variable, named by its index, to its current domain, an
  explicit finite set of integers.
\<close>

type_synonym store = "intvar list"

text \<open>
  Modelled from the spec: \<open>assign(var, value)\<close> and \<open>removeValue(var, value)\<close> of the Domain
  Store. Assigning a value that is not in the domain leaves the empty domain, which
  signals failure. A store is never changed in place, so going back to a choice point
  is taking up the store kept there.
\<close>

definition assign :: "nat \<Rightarrow> int \<Rightarrow> store \<Rightarrow> store" where
  "assign x v s = s[x := filter (\<lambda>u. u = v) (s ! x)]"

definition remove_value :: "nat \<Rightarrow> int \<Rightarrow> store \<Rightarrow> store" where
  "remove_value x v s = s[x := filter (\<lambda>u. u \<noteq> v) (s ! x)]"

text \<open>
  Modelled from the spec: a Constraint, a predicate over the variables with a propagate
  operation. Two variants are enough here: a relation over all variables, checked once
  every variable is bound, and \<open>variable < constant\<close>, the bound that branch and bound
  posts, which prunes the domain of its variable.
\<close>

datatype constraint = Relation "int list \<Rightarrow> bool" | Less nat int

datatype presult = Unchanged | Narrowed store | Fail

definition all_bound :: "store \<Rightarrow> bool" where
  "all_bound s = list_all var_bound s"

text \<open>
  Modelled from the spec: the propagate contract \<open>propagate(store) -> {Unchanged,
  Narrowed, Fail}\<close>. A constraint on an unknown variable fails.
\<close>

fun propagate :: "constraint \<Rightarrow> store \<Rightarrow> presult" where
  "propagate (Relation P) s = (if all_bound s \<and> \<not> P (map var_min s) then Fail else Unchanged)"
| "propagate (Less x b) s =
     (if x < length s then
        (let d = filter (\<lambda>v. v < b) (s ! x)
         in if d = [] then Fail
            else if length d = length (s ! x) then Unchanged
            else Narrowed (s[x := d]))
      else Fail)"

text \<open>
  Modelled from the spec: one round over the posted constraints; it stops at the first
  \<open>Fail\<close> (the result \<open>None\<close>) and tells whether some constraint narrowed a domain.
\<close>

fun propagate_round :: "constraint list \<Rightarrow> store \<Rightarrow> (bool \<times> store) option" where
  "propagate_round [] s = Some (False, s)"
| "propagate_round (c # cs) s =
     (case propagate c s of
        Fail \<Rightarrow> None
      | Unchanged \<Rightarrow> propagate_round cs s
      | Narrowed s' \<Rightarrow>
          (case propagate_round cs s' of None \<Rightarrow> None | Some (changed, s'') \<Rightarrow> Some (True, s'')))"

text \<open>
  Modelled from the spec: propagation to a fixpoint, rounds repeated until one narrows
  nothing. Every narrowing round removes a value, so the total size of the domains
  bounds the number of rounds.
\<close>

fun propagate_rounds :: "nat \<Rightarrow> constraint list \<Rightarrow> store \<Rightarrow> store option" where
  "propagate_rounds 0 cs s = (case propagate_round cs s of None \<Rightarrow> None | Some (changed, s') \<Rightarrow> Some s')"
| "propagate_rounds (Suc k) cs s =
     (case propagate_round cs s of
        None \<Rightarrow> None
      | Some (changed, s') \<Rightarrow> if changed then propagate_rounds k cs s' else Some s')"

definition propagate_all :: "constraint list \<Rightarrow> store \<Rightarrow> store option" where
  "propagate_all cs s =
     (if list_ex (\<lambda>d. d = []) s then None else propagate_rounds (sum_list (map length s)) cs s)"

text \<open>
  Modelled from the spec: the Decision Builder interface \<open>next(store) -> Decision | None\<close>;
  a decision is a variable and a value, tried as \<open>var = value\<close> and then \<open>var \<noteq> value\<close>.
  The default builder picks the first unbound variable and its minimum.
\<close>

type_synonym builder = "store \<Rightarrow> (nat \<times> int) option"

definition default_builder :: builder where
  "default_builder s =
     (case filter (\<lambda>i. \<not> var_bound (s ! i)) [0..<length s] of
        [] \<Rightarrow> None
      | i # rest \<Rightarrow> Some (i, var_min (s ! i)))"

datatype terminal = Exhausted | TimedOut | ModelError

text \<open>
  Modelled from the spec: the Search Tree Driver with the Branch-and-Bound Controller.
  The stack holds the stores of the untried alternatives, the nearest choice point
  first; \<open>fuel\<close> is the number of transitions left before the time limit. One
  transition takes the next alternative and propagates. On failure the driver
  backtracks. When every variable is bound it records the assignment and, with an
  objective variable \<open>x\<close> declared, posts \<open>x < value\<close> for the rest of the run before it
  backtracks. Otherwise it asks the builder and pushes the two alternatives. The
  result is the recorded assignments in the order found, and the terminal state.
\<close>

fun search :: "builder \<Rightarrow> nat option \<Rightarrow> nat \<Rightarrow> store list \<Rightarrow> constraint list \<Rightarrow> int list list
    \<Rightarrow> int list list \<times> terminal" where
  "search db obj fuel [] cs found = (found, Exhausted)"
| "search db obj 0 (node # stack) cs found = (found, TimedOut)"
| "search db obj (Suc fuel) (node # stack) cs found =
     (case propagate_all cs node of
        None \<Rightarrow> search db obj fuel stack cs found
      | Some node' \<Rightarrow>
          if all_bound node' then
            (let a = map var_min node' in
             case obj of
               None \<Rightarrow> search db obj fuel stack cs (found @ [a])
             | Some x \<Rightarrow>
                 if x < length a then search db obj fuel stack (Less x (a ! x) # cs) (found @ [a])
                 else (found, ModelError))
          else
            (case db node' of
               None \<Rightarrow> (found, ModelError)
             | Some (x, v) \<Rightarrow>
                 search db obj fuel (assign x v node' # remove_value x v node' # stack) cs found))"

text \<open>Modelled from the spec: \<open>runSearch\<close>, a search from the root store.\<close>

definition run_search :: "builder \<Rightarrow> nat option \<Rightarrow> nat \<Rightarrow> store \<Rightarrow> constraint list \<Rightarrow> int list list \<times> terminal" where
  "run_search db obj fuel root cs = search db obj fuel [root] cs []"

text \<open>
  The solution loops of vm.py and lotsizing.py: \<open>while slv.NextSolution(): ... zbest =
  z.Value()\<close>. With the assignments a run delivers, the values \<open>zbest\<close> takes in turn are
  those of the objective variable.
\<close>

definition observed :: "nat \<Rightarrow> int list list \<Rightarrow> int list" where
  "observed z sols = map (\<lambda>a. a ! z) sols"

section \<open>Properties of the drawing loop\<close>

lemma py_norm_lt: "py_norm n idx = Some i \<Longrightarrow> i < n"
  by (auto simp: py_norm_def split: if_splits)

lemma py_norm_in_range: "0 \<le> idx \<Longrightarrow> idx < int n \<Longrightarrow> py_norm n idx = Some (nat idx)"
  by (simp add: py_norm_def)

lemma randint_ok_norm:
  assumes "randint_ok randint" "0 < n"
  shows "\<exists>i. py_norm n (fst (randint g 0 (int n - 1))) = Some i"
proof -
  have "(0::int) \<le> int n - 1" using assms(2) by simp
  then have "0 \<le> fst (randint g 0 (int n - 1)) \<and> fst (randint g 0 (int n - 1)) \<le> int n - 1"
    using assms(1) unfolding randint_ok_def by blast
  then show ?thesis by (simp add: py_norm_def)
qed

lemma draw_loop_stop:
  "\<not> (int (length R) < sz \<and> length L > 0) \<Longrightarrow> draw_loop randint sz L R g = Inr (L, R, g)"
  by (subst draw_loop.simps) auto

lemma draw_loop_step:
  "int (length R) < sz \<and> length L > 0 \<Longrightarrow> randint g 0 (int (length L) - 1) = (idx, g') \<Longrightarrow>
   draw_loop randint sz L R g =
     (case py_norm (length L) idx of
        None \<Rightarrow> Inl IndexError
      | Some i \<Rightarrow> draw_loop randint sz (take i L @ drop (Suc i) L) (R @ [L ! i]) g')"
  by (subst draw_loop.simps) auto

lemma draw_loop_total:
  "randint_ok randint \<Longrightarrow> \<exists>L' R' g'. draw_loop randint sz L R g = Inr (L', R', g')"
proof (induction randint sz L R g rule: draw_loop.induct)
  case (1 randint sz L R g)
  show ?case
  proof (cases "int (length R) < sz \<and> length L > 0")
    case False
    then show ?thesis by (simp add: draw_loop_stop)
  next
    case True
    obtain idx g' where r: "randint g 0 (int (length L) - 1) = (idx, g')"
      by (cases "randint g 0 (int (length L) - 1)")
    from randint_ok_norm [OF "1.prems", of "length L" g] True r
    obtain i where i: "py_norm (length L) idx = Some i" by auto
    from "1.IH" [OF True r [symmetric] i "1.prems"]
    show ?thesis using i by (simp add: draw_loop_step [where randint=randint, OF True r])
  qed
qed

lemma draw_loop_length:
  "draw_loop randint sz L R g = Inr (L', R', g') \<Longrightarrow>
   length L' + length R' = length L + length R \<and>
   length R' = (if int (length R) < sz then min (nat sz) (length L + length R) else length R)"
proof (induction randint sz L R g rule: draw_loop.induct)
  case (1 randint sz L R g)
  show ?case
  proof (cases "int (length R) < sz \<and> length L > 0")
    case False
    with "1.prems" show ?thesis by (auto simp: draw_loop_stop)
  next
    case True
    obtain idx g1 where r: "randint g 0 (int (length L) - 1) = (idx, g1)"
      by (cases "randint g 0 (int (length L) - 1)")
    from "1.prems" True r obtain i where i: "py_norm (length L) idx = Some i"
      and rec: "draw_loop randint sz (take i L @ drop (Suc i) L) (R @ [L ! i]) g1 = Inr (L', R', g')"
      by (auto simp: draw_loop_step [where randint=randint, OF True r] split: option.splits)
    have il: "i < length L" using i by (rule py_norm_lt)
    from "1.IH" [OF True r [symmetric] i rec] il True
    show ?thesis by (auto simp: min_def split: if_splits)
  qed
qed

lemma draw_loop_map:
  "draw_loop randint sz (map f L) (map f R) g =
     (case draw_loop randint sz L R g of Inl e \<Rightarrow> Inl e
      | Inr (L', R', g') \<Rightarrow> Inr (map f L', map f R', g'))"
proof (induction randint sz L R g rule: draw_loop.induct)
  case (1 randint sz L R g)
  show ?case
  proof (cases "int (length R) < sz \<and> length L > 0")
    case False
    then show ?thesis by (simp add: draw_loop_stop)
  next
    case True
    obtain idx g1 where r: "randint g 0 (int (length L) - 1) = (idx, g1)"
      by (cases "randint g 0 (int (length L) - 1)")
    show ?thesis
    proof (cases "py_norm (length L) idx")
      case None
      have T: "int (length (map f R)) < sz \<and> length (map f L) > 0" using True by simp
      have r': "randint g 0 (int (length (map f L)) - 1) = (idx, g1)" using r by simp
      show ?thesis using None
        by (simp add: draw_loop_step [where randint=randint, OF True r] draw_loop_step [where randint=randint, OF T r'])
    next
      case (Some i)
      have il: "i < length L" using Some by (rule py_norm_lt)
      have T: "int (length (map f R)) < sz \<and> length (map f L) > 0" using True by simp
      have r': "randint g 0 (int (length (map f L)) - 1) = (idx, g1)" using r by simp
      from "1.IH" [OF True r [symmetric] Some] il Some
      show ?thesis
        by (simp add: draw_loop_step [where randint=randint, OF True r] draw_loop_step [where randint=randint, OF T r'] take_map drop_map)
    qed
  qed
qed

lemma filter_remove_nth:
  assumes "distinct xs" "i < length xs"
  shows "take i xs @ drop (Suc i) xs = filter (\<lambda>p. p \<noteq> xs ! i) xs"
proof -
  have xs: "xs = take i xs @ xs ! i # drop (Suc i) xs"
    using assms(2) by (simp add: id_take_nth_drop)
  have d: "distinct (take i xs @ xs ! i # drop (Suc i) xs)"
    using assms(1) xs by simp
  have a: "filter (\<lambda>p. p \<noteq> xs ! i) (take i xs) = take i xs"
    using d by (intro filter_True) auto
  have b: "filter (\<lambda>p. p \<noteq> xs ! i) (drop (Suc i) xs) = drop (Suc i) xs"
    using d by (intro filter_True) auto
  have "filter (\<lambda>p. p \<noteq> xs ! i) (take i xs @ xs ! i # drop (Suc i) xs) = take i xs @ drop (Suc i) xs"
    using a b by simp
  with xs show ?thesis by simp
qed

lemma draw_loop_positions:
  "draw_loop randint sz L R g = Inr (L', R', g') \<Longrightarrow>
   distinct R \<Longrightarrow> set R \<subseteq> {..<n} \<Longrightarrow> L = filter (\<lambda>p. p \<notin> set R) [0..<n] \<Longrightarrow>
   distinct R' \<and> set R' \<subseteq> {..<n} \<and> L' = filter (\<lambda>p. p \<notin> set R') [0..<n]"
proof (induction randint sz L R g rule: draw_loop.induct)
  case (1 randint sz L R g)
  show ?case
  proof (cases "int (length R) < sz \<and> length L > 0")
    case False
    with "1.prems" show ?thesis by (auto simp: draw_loop_stop)
  next
    case True
    obtain idx g1 where r: "randint g 0 (int (length L) - 1) = (idx, g1)"
      by (cases "randint g 0 (int (length L) - 1)")
    from "1.prems"(1) True r obtain i where i: "py_norm (length L) idx = Some i"
      and rec: "draw_loop randint sz (take i L @ drop (Suc i) L) (R @ [L ! i]) g1 = Inr (L', R', g')"
      by (auto simp: draw_loop_step [where randint=randint, OF True r] split: option.splits)
    have il: "i < length L" using i by (rule py_norm_lt)
    have dL: "distinct L" using "1.prems"(4) by simp
    have mem: "L ! i \<in> set L" using il by simp
    then have notR: "L ! i \<notin> set R" and ltn: "L ! i < n"
      using "1.prems"(4) by auto
    have d1: "distinct (R @ [L ! i])" using "1.prems"(2) notR by simp
    have s1: "set (R @ [L ! i]) \<subseteq> {..<n}" using "1.prems"(3) ltn by simp
    have "take i L @ drop (Suc i) L = filter (\<lambda>p. p \<noteq> L ! i) L"
      using dL il by (rule filter_remove_nth)
    also have "\<dots> = filter (\<lambda>p. p \<notin> set (R @ [L ! i])) [0..<n]"
      by (subst "1.prems"(4)) (auto intro: filter_cong)
    finally have l1: "take i L @ drop (Suc i) L = filter (\<lambda>p. p \<notin> set (R @ [L ! i])) [0..<n]" .
    from "1.IH" [OF True r [symmetric] i rec d1 s1 l1]
    show ?thesis .
  qed
qed

lemma draw_loop_positions_of:
  assumes "draw_loop randint sz L [] g = Inr (vL, vR, g')"
  shows "\<exists>ps. distinct ps \<and> set ps \<subseteq> {..<length L} \<and> vR = map ((!) L) ps
      \<and> vL = map ((!) L) (filter (\<lambda>p. p \<notin> set ps) [0..<length L])"
proof -
  have m: "map ((!) L) [0..<length L] = L" by (rule map_nth)
  have "draw_loop randint sz (map ((!) L) [0..<length L]) (map ((!) L) []) g =
      (case draw_loop randint sz [0..<length L] [] g of Inl e \<Rightarrow> Inl e
       | Inr (L', R', g') \<Rightarrow> Inr (map ((!) L) L', map ((!) L) R', g'))"
    by (rule draw_loop_map)
  with assms m obtain Lp ps where p: "draw_loop randint sz [0..<length L] [] g = Inr (Lp, ps, g')"
    and v: "vL = map ((!) L) Lp" "vR = map ((!) L) ps"
    by (auto split: sum.splits)
  have "distinct ps \<and> set ps \<subseteq> {..<length L} \<and> Lp = filter (\<lambda>p. p \<notin> set ps) [0..<length L]"
    using draw_loop_positions [OF p, of "length L"] by simp
  with v show ?thesis by blast
qed

lemma draw_loop_from_empty_length:
  assumes "draw_loop randint sz L [] g = Inr (vL, vR, g')" "0 \<le> sz"
  shows "length vR = min (nat sz) (length L)" "length vL = length L - length vR"
proof -
  from draw_loop_length [OF assms(1)]
  have a: "length vL + length vR = length L"
    and b: "length vR = (if 0 < sz then min (nat sz) (length L) else 0)" by simp_all
  from b assms(2) show "length vR = min (nat sz) (length L)" by (cases "0 < sz") auto
  from a show "length vL = length L - length vR" by simp
qed

lemma random_draw_lns_unfold:
  assumes "L < length h"
  shows "random_draw_lns randint h L sz g =
     (case draw_loop randint sz (h ! L) [] g of
        Inl e \<Rightarrow> Inl e
      | Inr (vL, vR, g') \<Rightarrow> Inr (length h, (h @ [[]])[L := vL, length h := vR], g'))"
  using assms by (auto simp: random_draw_lns_def alloc_def nth_append split: sum.splits)

lemma random_draw_wt_unfold:
  assumes "L < length h"
  shows "random_draw_wt randint h L sz g =
     (case draw_loop randint sz (h ! L) [] g of
        Inl e \<Rightarrow> Inl e
      | Inr (vL, vR, g') \<Rightarrow> Inr (Suc (length h), (h @ [h ! L, []])[length h := vL, Suc (length h) := vR], g'))"
  using assms by (auto simp: random_draw_wt_def alloc_def nth_append split: sum.splits)

lemma random_draw_lns_result:
  assumes "random_draw_lns randint h L sz g = Inr (R, h', g')" "L < length h"
  shows "\<exists>vL vR. draw_loop randint sz (h ! L) [] g = Inr (vL, vR, g') \<and> R = length h
      \<and> h' ! R = vR \<and> h' ! L = vL \<and> (\<forall>a < length h. a \<noteq> L \<longrightarrow> h' ! a = h ! a)"
  using assms by (auto simp: random_draw_lns_unfold nth_append nth_list_update split: sum.splits)

lemma random_draw_wt_result:
  assumes "random_draw_wt randint h L sz g = Inr (R, h', g')" "L < length h"
  shows "\<exists>vL vR. draw_loop randint sz (h ! L) [] g = Inr (vL, vR, g')
      \<and> h' ! R = vR \<and> (\<forall>a < length h. h' ! a = h ! a)"
  using assms by (auto simp: random_draw_wt_unfold nth_append nth_list_update split: sum.splits)

section \<open>Properties of the cost helpers\<close>

lemma map_err_total:
  "(\<And>x. x \<in> set xs \<Longrightarrow> \<exists>y. f x = Inr y) \<Longrightarrow> \<exists>ys. map_err f xs = Inr ys \<and> length ys = length xs"
proof (induction xs)
  case Nil
  then show ?case by simp
next
  case (Cons a xs)
  from Cons.prems obtain y where y: "f a = Inr y" by force
  from Cons.IH Cons.prems obtain ys where "map_err f xs = Inr ys" "length ys = length xs" by force
  with y show ?case by simp
qed

lemma py_index_total: "x \<in> set xs \<Longrightarrow> \<exists>k. py_index xs x = Inr k"
  by (induction xs) auto

lemma py_get_total: "0 \<le> j \<Longrightarrow> j < int (length xs) \<Longrightarrow> \<exists>y. py_get xs j = Inr y"
  by (simp add: py_get_def py_norm_def)

lemma clamp_mult:
  fixes x w :: int
  assumes "0 \<le> w"
  shows "max 0 x * w = max 0 (x * w)"
proof (cases "0 \<le> x")
  case True
  then have "0 \<le> x * w" using assms by simp
  with True show ?thesis by (simp add: max_def)
next
  case False
  then have "x * w \<le> 0" using assms by (simp add: mult_nonpos_nonneg)
  with False show ?thesis by (simp add: max_def)
qed

lemma costs_of_slack:
  assumes "\<forall>a \<in> set acts. 0 \<le> wgt a"
  shows "compute_costs acts sbest =
     (case compute_weighted_slack acts sbest of Inl e \<Rightarrow> Inl e | Inr ws \<Rightarrow> Inr (map (max 0) ws))"
proof (cases "starts_of acts sbest")
  case (Inl e)
  then show ?thesis by (simp add: compute_costs_def compute_weighted_slack_def)
next
  case (Inr starts)
  have "\<And>i a. (i, a) \<in> set (enumerate 0 acts) \<Longrightarrow>
      max 0 (starts ! i - dln a) * wgt a = max 0 ((starts ! i - dln a) * wgt a)"
    using assms by (auto simp: in_set_enumerate_eq intro!: clamp_mult)
  then have "map (\<lambda>(i, a). max 0 (starts ! i - dln a) * wgt a) (enumerate 0 acts) =
      map (max 0) (map (\<lambda>(i, a). (starts ! i - dln a) * wgt a) (enumerate 0 acts))"
    by (auto simp: o_def)
  with Inr show ?thesis by (simp add: compute_costs_def compute_weighted_slack_def)
qed

lemma starts_of_total:
  assumes "mset sbest = mset (map int [0..<length acts])"
  shows "\<exists>starts. starts_of acts sbest = Inr starts"
proof -
  have S: "set sbest = int ` {0..<length acts}"
    using mset_eq_setD [OF assms] by simp
  have "\<exists>y. start_of acts sbest i = Inr y" if "i \<in> set [0..<length acts]" for i
  proof -
    from that S have "int i \<in> set sbest" by auto
    then obtain k where k: "py_index sbest (int i) = Inr k" using py_index_total by fast
    have "\<exists>y. py_get acts j = Inr y" if "j \<in> set (take k sbest)" for j
    proof -
      from that have "j \<in> set sbest" by (rule in_set_takeD)
      with S show ?thesis by (auto intro: py_get_total)
    qed
    then obtain as where "map_err (\<lambda>j. py_get acts j) (take k sbest) = Inr as"
      using map_err_total [of "take k sbest" "\<lambda>j. py_get acts j"] by blast
    with k show ?thesis by (simp add: start_of_def sum_dur_def)
  qed
  then show ?thesis
    unfolding starts_of_def using map_err_total [of "[0..<length acts]" "start_of acts sbest"] by blast
qed

section \<open>Properties of \<open>solve\<close> and of the LNS loop\<close>

lemma solve_no_limit_message:
  "solve slv acts None strategy res_mode preorder old_zbest stop_after = Inr (t, b, zb, sb, out)
   \<Longrightarrow> out \<noteq> [] \<and> last out = TimeLimitExceeded"
  by (auto simp: solve_def py2_gt_def Let_def split: sum.splits prod.splits)

lemma solution_loop_result:
  "solution_loop n stop_after sols zb0 sb0 c out0 = (zb, sb, c', broke, out) \<Longrightarrow>
   (zb = zb0 \<and> sb = sb0) \<or> (\<exists>s \<in> set sols. zb = Some (z_value s) \<and> sb \<noteq> None)"
proof (induction sols arbitrary: zb0 sb0 c out0)
  case Nil
  then show ?case by simp
next
  case (Cons s rest)
  show ?case
  proof (cases "case stop_after of None \<Rightarrow> False | Some k \<Rightarrow> c + 1 \<ge> k")
    case True
    with Cons.prems show ?thesis by (auto simp: Let_def)
  next
    case False
    with Cons.prems have "solution_loop n stop_after rest (Some (z_value s))
        (Some (map int (sort_key (\<lambda>i. start_min s i) [0..<n]))) (c + 1)
        (out0 @ [SolutionFound (z_value s), Sequence (map int (sort_key (\<lambda>i. start_min s i) [0..<n]))])
        = (zb, sb, c', broke, out)"
      by (simp add: Let_def)
    from Cons.IH [OF this] show ?thesis by auto
  qed
qed

lemma build_model_posts_bound:
  "build_model acts time_limit strategy res_mode preorder (Some z) = Inr p \<Longrightarrow> ZLess z \<in> set (posted p)"
  by (auto simp: build_model_def bound_constraint_def Let_def split: sum.splits prod.splits)

lemma solve_below_bound:
  assumes "engine_sound slv"
    and "solve slv acts time_limit strategy res_mode preorder (Some z) stop_after = Inr (t, b, Some lz, ls, out)"
  shows "lz < z"
proof -
  from assms(2) obtain p sc broke out0 where
    p: "build_model acts time_limit strategy res_mode preorder (Some z) = Inr p"
    and l: "solution_loop (length acts) stop_after (solutions (slv p)) None None 0 [] = (Some lz, ls, sc, broke, out0)"
    by (auto simp: solve_def Let_def split: sum.splits prod.splits)
  from solution_loop_result [OF l] obtain s where s: "s \<in> set (solutions (slv p))" "lz = z_value s"
    by auto
  from assms(1) s(1) have "feasible p s" by (simp add: engine_sound_def)
  with build_model_posts_bound [OF p] have "holds p s (ZLess z)" unfolding feasible_def by blast
  with s(2) show ?thesis by simp
qed

lemma solve_none_keeps:
  "solve slv acts time_limit strategy res_mode preorder old_zbest stop_after = Inr (t, b, Some lz, ls, out)
   \<Longrightarrow> ls \<noteq> None"
  by (auto simp: solve_def Let_def split: sum.splits prod.splits dest!: solution_loop_result)

lemma lns_iteration_step:
  assumes "engine_sound slv"
    and "lns_iteration slv randint acts nsize s = Inr s'"
    and "lns_zbest s = Some z"
  shows "(lns_zbest s' = Some z \<and> lns_sbest s' = lns_sbest s) \<or> (\<exists>z'. lns_zbest s' = Some z' \<and> z' < z)"
proof -
  from assms(2) obtain relaxed g' preorder lt lb lz ls out where
    sv: "solve slv acts (Some local_time_limit) 0 0 (Some preorder) (lns_zbest s) (Some 1) = Inr (lt, lb, lz, ls, out)"
    and zb: "lns_zbest s' = (if lz \<noteq> None then lz else lns_zbest s)"
    and sb: "lns_sbest s' = (if lz \<noteq> None then ls else lns_sbest s)"
    by (auto simp: lns_iteration_def split: sum.splits prod.splits)
  show ?thesis
  proof (cases lz)
    case None
    with zb sb assms(3) show ?thesis by simp
  next
    case (Some z')
    with sv assms(3) have "z' < z" using solve_below_bound [OF assms(1)] by simp
    with Some zb show ?thesis by simp
  qed
qed

lemma lns_loop_final:
  "engine_sound slv \<Longrightarrow> lns_loop slv randint acts nsize best s = Inr s' \<Longrightarrow> lns_zbest s = Some z \<Longrightarrow>
         \<exists>z'. lns_zbest s' = Some z' \<and> z' \<le> z"
proof (induction slv randint acts nsize best s arbitrary: z rule: lns_loop.induct)
  case (1 slv randint acts nsize best s)
  show ?case
  proof (cases "lns_time s < global_time_limit")
    case False
    with "1.prems" show ?thesis by (simp add: lns_loop.simps)
  next
    case True
    with "1.prems"(2) obtain s1 where it: "lns_iteration slv randint acts nsize s = Inr s1"
      by (subst (asm) lns_loop.simps) (auto split: sum.splits)
    from lns_iteration_step [OF "1.prems"(1) it "1.prems"(3)]
    obtain z1 where z1: "lns_zbest s1 = Some z1" "z1 \<le> z" by auto
    show ?thesis
    proof (cases "lns_zbest s1 = Some best")
      case True': True
      with True it "1.prems"(2) have "s' = s1\<lparr>lns_out := lns_out s1 @ [KnownOptimumFound]\<rparr>"
        by (subst (asm) lns_loop.simps) simp
      with z1 show ?thesis by simp
    next
      case False
      with True it "1.prems"(2) have "lns_loop slv randint acts nsize best s1 = Inr s'"
        by (subst (asm) lns_loop.simps) simp
      from "1.IH" [OF True it False "1.prems"(1) this z1(1)] z1(2) show ?thesis by auto
    qed
  qed
qed

lemma filter_engine_sound: "engine_sound (filter_engine cands wall)"
  by (simp add: engine_sound_def filter_engine_def)

lemma lns_iteration_posts_bound:
  assumes "lns_iteration slv randint acts nsize s = Inr s'" and "lns_zbest s = Some z"
  shows "\<exists>relaxed g' preorder p. lns_relaxed randint acts nsize (lns_rng s) = Inr (relaxed, g')
      \<and> lns_preorder (lns_sbest s) relaxed = Inr preorder
      \<and> build_model acts (Some local_time_limit) 0 0 (Some preorder) (Some z) = Inr p
      \<and> ZLess z \<in> set (posted p)"
proof -
  from assms obtain relaxed g' preorder r where
    a: "lns_relaxed randint acts nsize (lns_rng s) = Inr (relaxed, g')"
    and b: "lns_preorder (lns_sbest s) relaxed = Inr preorder"
    and c: "solve slv acts (Some local_time_limit) 0 0 (Some preorder) (Some z) (Some 1) = Inr r"
    by (auto simp: lns_iteration_def split: sum.splits prod.splits)
  from c obtain p where p: "build_model acts (Some local_time_limit) 0 0 (Some preorder) (Some z) = Inr p"
    by (auto simp: solve_def split: sum.splits)
  from build_model_posts_bound [OF p] a b p show ?thesis by blast
qed

lemma ex_iteration:
  "lns_iteration (filter_engine ex_cands 15000) rnd_last ex_acts 5 ex_state =
     Inr \<lparr> lns_time = 30000, lns_branches = 2, lns_zbest = Some 2, lns_sbest = Some [1, 0],
           lns_rng = (), lns_cnt = 1,
           lns_out = [LnsIteration 0, SolutionFound 2, Sequence [1, 0], BestSolutionFound 2,
                      NumberOfBranches 1, ComputationTime 15000, TimeLimitExceeded] \<rparr>"
  by code_simp

lemma ex_loop:
  "lns_loop (filter_engine ex_cands 15000) rnd_last ex_acts 5 0 ex_state =
     Inr \<lparr> lns_time = 45000, lns_branches = 3, lns_zbest = Some 2, lns_sbest = Some [1, 0],
           lns_rng = (), lns_cnt = 2,
           lns_out = [LnsIteration 0, SolutionFound 2, Sequence [1, 0], BestSolutionFound 2,
                      NumberOfBranches 1, ComputationTime 15000, TimeLimitExceeded,
                      LnsIteration 1, NoSolutionFound, NumberOfBranches 1, ComputationTime 15000,
                      TimeLimitExceeded] \<rparr>"
  by code_simp

lemma lns_relaxed_unfold:
  "lns_relaxed randint acts nsize g =
     (case draw_loop randint nsize (map int [0..<length acts]) [] g of
        Inl e \<Rightarrow> Inl e
      | Inr (vL, vR, g') \<Rightarrow> Inr (vR, g'))"
  by (simp add: lns_relaxed_def Let_def random_draw_wt_unfold split: sum.splits)

lemma lns_relaxed_full:
  assumes "randint_ok randint" and "nsize = int (length acts)"
  shows "\<exists>relaxed g'. lns_relaxed randint acts nsize g = Inr (relaxed, g')
      \<and> set relaxed = int ` {0..<length acts}"
proof -
  let ?L = "map int [0..<length acts]"
  from draw_loop_total [OF assms(1)] obtain vL vR g' where
    d: "draw_loop randint nsize ?L [] g = Inr (vL, vR, g')" by blast
  from draw_loop_positions_of [OF d] obtain ps where
    ps: "distinct ps" "set ps \<subseteq> {..<length acts}" "vR = map ((!) ?L) ps" by auto
  have "length vR = min (nat nsize) (length ?L)"
    using draw_loop_from_empty_length(1) [OF d] assms(2) by simp
  with ps(3) assms(2) have len: "length ps = length acts" by simp
  have "card (set ps) = card {..<length acts}"
    using ps(1) len by (simp add: distinct_card)
  with ps(2) have full: "set ps = {..<length acts}"
    by (simp add: card_subset_eq)
  have "map ((!) ?L) ps = map int ps"
    using ps(2) by (intro map_cong) auto
  with ps(3) full have "set vR = int ` {0..<length acts}"
    by (simp add: atLeast0LessThan)
  with d show ?thesis by (simp add: lns_relaxed_unfold)
qed

lemma lns_preorder_empty:
  "set sb \<subseteq> set relaxed \<Longrightarrow> lns_preorder (Some sb) relaxed = Inr []"
  by (auto simp: lns_preorder_def filter_empty_conv)

lemma resource_constraints_empty_preorder:
  "resource_constraints n res_mode (Some []) = resource_constraints n res_mode None"
  by (simp add: resource_constraints_def)

lemma preorder_constraints_empty_preorder:
  "preorder_constraints n (Some []) = preorder_constraints n None"
  by (simp add: preorder_constraints_def)

lemma build_model_empty_preorder:
  "build_model acts time_limit strategy res_mode (Some []) old_zbest =
   build_model acts time_limit strategy res_mode None old_zbest"
  unfolding build_model_def resource_constraints_empty_preorder preorder_constraints_empty_preorder
  by (rule refl)

lemma solve_empty_preorder:
  "solve slv acts time_limit strategy res_mode (Some []) old_zbest stop_after =
   solve slv acts time_limit strategy res_mode None old_zbest stop_after"
  by (simp add: solve_def build_model_empty_preorder)

lemma holds_durations:
  "durations p = durations q \<Longrightarrow> holds p s c = holds q s c"
  by (cases c) (simp_all add: end_of_def)

lemma build_model_bound_only:
  assumes "build_model acts time_limit strategy res_mode None None = Inr p0"
    and "build_model acts time_limit strategy res_mode None (Some z) = Inr p"
  shows "durations p = durations p0 \<and> eoh p = eoh p0 \<and> decision_builder p = decision_builder p0
     \<and> search_monitors p = search_monitors p0 \<and> set (posted p) = insert (ZLess z) (set (posted p0))"
  using assms
  by (auto simp: build_model_def bound_constraint_def Let_def split: sum.splits prod.splits)

lemma feasible_bound_only:
  assumes "build_model acts time_limit strategy res_mode None None = Inr p0"
    and "build_model acts time_limit strategy res_mode None (Some z) = Inr p"
  shows "feasible p s = (feasible p0 s \<and> z_value s < z)"
proof -
  from build_model_bound_only [OF assms] have
    d: "durations p = durations p0" and e: "eoh p = eoh p0"
    and c: "set (posted p) = insert (ZLess z) (set (posted p0))" by simp_all
  have h: "\<And>c. holds p s c = holds p0 s c" using d by (rule holds_durations)
  show ?thesis unfolding feasible_def d e c h by auto
qed

section \<open>Properties of the decision builders\<close>

lemma first_unbound_pos:
  "first_unbound bnd (enumerate n idx) = Inr (Some (k, i)) \<Longrightarrow> n \<le> k \<and> k < n + length idx"
proof (induction idx arbitrary: n)
  case Nil
  then show ?case by simp
next
  case (Cons a idx)
  show ?case
  proof (cases "bnd (int a)")
    case (Inl e)
    with Cons.prems show ?thesis by simp
  next
    case (Inr b)
    show ?thesis
    proof (cases b)
      case True
      with Inr Cons.prems have "first_unbound bnd (enumerate (Suc n) idx) = Inr (Some (k, i))"
        by simp
      from Cons.IH [OF this] show ?thesis by simp
    next
      case False
      with Inr Cons.prems show ?thesis by simp
    qed
  qed
qed

section \<open>Properties of the search engine\<close>

lemma filter_full_length:
  assumes "length (filter P xs) = length xs"
  shows "\<forall>v \<in> set xs. P v"
proof -
  have "length (filter P xs) + length (filter (\<lambda>v. \<not> P v) xs) = length xs"
    by (rule sum_length_filter_compl)
  with assms have "filter (\<lambda>v. \<not> P v) xs = []" by simp
  then show ?thesis by (simp add: filter_empty_conv)
qed

lemma propagate_narrowed:
  "propagate c s = Narrowed s' \<Longrightarrow> length s' = length s \<and> (\<forall>i < length s. set (s' ! i) \<subseteq> set (s ! i))"
proof (cases c)
  case (Relation P)
  assume "propagate c s = Narrowed s'"
  with Relation show ?thesis by (simp split: if_splits)
next
  case (Less x b)
  assume "propagate c s = Narrowed s'"
  with Less have e: "s' = s[x := filter (\<lambda>v. v < b) (s ! x)]"
    by (simp add: Let_def split: if_splits)
  have "set (s' ! i) \<subseteq> set (s ! i)" if "i < length s" for i
  proof (cases "i = x")
    case True
    with that e show ?thesis by simp
  next
    case False
    with e show ?thesis by simp
  qed
  with e show ?thesis by simp
qed

lemma propagate_round_shrinks:
  "propagate_round cs s = Some (ch, s') \<Longrightarrow>
   length s' = length s \<and> (\<forall>i < length s. set (s' ! i) \<subseteq> set (s ! i))"
proof (induction cs arbitrary: s ch)
  case Nil
  then show ?case by simp
next
  case (Cons c cs)
  show ?case
  proof (cases "propagate c s")
    case Fail
    with Cons.prems show ?thesis by simp
  next
    case Unchanged
    with Cons.prems have "propagate_round cs s = Some (ch, s')" by simp
    from Cons.IH [OF this] show ?thesis .
  next
    case (Narrowed s1)
    with Cons.prems obtain ch1 where r: "propagate_round cs s1 = Some (ch1, s')"
      by (auto split: option.splits)
    from Cons.IH [OF r] have l1: "length s' = length s1"
      and s1: "\<forall>i < length s1. set (s' ! i) \<subseteq> set (s1 ! i)" by simp_all
    from propagate_narrowed [OF Narrowed] have l2: "length s1 = length s"
      and s2: "\<forall>i < length s. set (s1 ! i) \<subseteq> set (s ! i)" by simp_all
    have "set (s' ! i) \<subseteq> set (s ! i)" if "i < length s" for i
    proof -
      from that l2 s1 have "set (s' ! i) \<subseteq> set (s1 ! i)" by simp
      moreover from that s2 have "set (s1 ! i) \<subseteq> set (s ! i)" by simp
      ultimately show ?thesis by (rule subset_trans)
    qed
    with l1 l2 show ?thesis by simp
  qed
qed

lemma propagate_less:
  assumes "propagate (Less x b) s \<noteq> Fail"
  shows "x < length s"
    and "propagate (Less x b) s = Unchanged \<Longrightarrow> \<forall>v \<in> set (s ! x). v < b"
    and "propagate (Less x b) s = Narrowed s1 \<Longrightarrow> length s1 = length s \<and> (\<forall>v \<in> set (s1 ! x). v < b)"
proof -
  from assms show x: "x < length s" by (simp split: if_splits)
  show "\<forall>v \<in> set (s ! x). v < b" if "propagate (Less x b) s = Unchanged"
    using that x by (auto simp: Let_def split: if_splits dest: filter_full_length)
  show "length s1 = length s \<and> (\<forall>v \<in> set (s1 ! x). v < b)" if "propagate (Less x b) s = Narrowed s1"
  proof -
    from that x have "s1 = s[x := filter (\<lambda>v. v < b) (s ! x)]"
      by (simp add: Let_def split: if_splits)
    with x show ?thesis by simp
  qed
qed

lemma propagate_round_less:
  "Less x b \<in> set cs \<Longrightarrow> propagate_round cs s = Some (ch, s') \<Longrightarrow>
   x < length s \<and> (\<forall>v \<in> set (s' ! x). v < b)"
proof (induction cs arbitrary: s ch)
  case Nil
  then show ?case by simp
next
  case (Cons c cs)
  show ?case
  proof (cases "c = Less x b")
    case True
    show ?thesis
    proof (cases "propagate c s")
      case Fail
      with Cons.prems show ?thesis by simp
    next
      case Unchanged
      with True have nf: "propagate (Less x b) s \<noteq> Fail" and u: "propagate (Less x b) s = Unchanged"
        by simp_all
      from Unchanged Cons.prems have r: "propagate_round cs s = Some (ch, s')" by simp
      have xl: "x < length s" using nf by (rule propagate_less(1))
      have b0: "\<forall>v \<in> set (s ! x). v < b" using nf u by (rule propagate_less(2))
      from propagate_round_shrinks [OF r] xl have "set (s' ! x) \<subseteq> set (s ! x)" by simp
      with b0 xl show ?thesis by auto
    next
      case (Narrowed s1)
      with True have nf: "propagate (Less x b) s \<noteq> Fail" and n: "propagate (Less x b) s = Narrowed s1"
        by simp_all
      from Narrowed Cons.prems obtain ch1 where r: "propagate_round cs s1 = Some (ch1, s')"
        by (auto split: option.splits)
      have xl: "x < length s" using nf by (rule propagate_less(1))
      from propagate_less(3) [OF nf n] have l1: "length s1 = length s"
        and b1: "\<forall>v \<in> set (s1 ! x). v < b" by simp_all
      from propagate_round_shrinks [OF r] xl l1 have "set (s' ! x) \<subseteq> set (s1 ! x)" by simp
      with b1 xl show ?thesis by auto
    qed
  next
    case False
    with Cons.prems have mem: "Less x b \<in> set cs" by simp
    show ?thesis
    proof (cases "propagate c s")
      case Fail
      with Cons.prems show ?thesis by simp
    next
      case Unchanged
      with Cons.prems have "propagate_round cs s = Some (ch, s')" by simp
      from Cons.IH [OF mem this] show ?thesis .
    next
      case (Narrowed s1)
      with Cons.prems obtain ch1 where r: "propagate_round cs s1 = Some (ch1, s')"
        by (auto split: option.splits)
      from Cons.IH [OF mem r] propagate_narrowed [OF Narrowed] show ?thesis by simp
    qed
  qed
qed

lemma propagate_rounds_less:
  "Less x b \<in> set cs \<Longrightarrow> propagate_rounds k cs s = Some s' \<Longrightarrow>
   x < length s \<and> length s' = length s \<and> (\<forall>v \<in> set (s' ! x). v < b)"
proof (induction k arbitrary: s)
  case 0
  then obtain ch where r: "propagate_round cs s = Some (ch, s')"
    by (auto split: option.splits)
  from propagate_round_less [OF "0.prems"(1) r] propagate_round_shrinks [OF r] show ?case by simp
next
  case (Suc k)
  then obtain ch s1 where r: "propagate_round cs s = Some (ch, s1)"
    by (auto split: option.splits)
  note a = propagate_round_less [OF Suc.prems(1) r] and b = propagate_round_shrinks [OF r]
  show ?case
  proof (cases ch)
    case True
    with r Suc.prems(2) have "propagate_rounds k cs s1 = Some s'" by simp
    from Suc.IH [OF Suc.prems(1) this] a b show ?thesis by simp
  next
    case False
    with r Suc.prems(2) have "s' = s1" by simp
    with a b show ?thesis by simp
  qed
qed

lemma propagate_all_less:
  assumes "Less x b \<in> set cs" and "propagate_all cs s = Some s'"
  shows "x < length s' \<and> (\<forall>v \<in> set (s' ! x). v < b)"
proof -
  from assms(2) have "propagate_rounds (sum_list (map length s)) cs s = Some s'"
    by (simp add: propagate_all_def split: if_splits)
  from propagate_rounds_less [OF assms(1) this] show ?thesis by simp
qed

lemma bound_min_in:
  assumes "all_bound s" and "x < length s"
  shows "var_min (s ! x) \<in> set (s ! x)"
proof -
  from assms have "var_bound (s ! x)" by (simp add: all_bound_def list_all_length)
  then have "card (set (s ! x)) = 1" by (simp add: var_bound_def var_size_def)
  then have "set (s ! x) \<noteq> {}" by auto
  then show ?thesis unfolding var_min_def by (intro Min_in) simp_all
qed

lemma search_decreasing:
  "(\<forall>a \<in> set found. Less x (a ! x) \<in> set cs) \<Longrightarrow>
   sorted_wrt (\<lambda>u v. v < u) (observed x found) \<Longrightarrow>
   sorted_wrt (\<lambda>u v. v < u) (observed x (fst (search db (Some x) fuel stack cs found)))"
proof (induction fuel arbitrary: stack cs found)
  case 0
  then show ?case by (cases stack) simp_all
next
  case (Suc fuel)
  show ?case
  proof (cases stack)
    case Nil
    with Suc.prems show ?thesis by simp
  next
    case (Cons node rest)
    show ?thesis
    proof (cases "propagate_all cs node")
      case None
      with Cons Suc.IH [OF Suc.prems] show ?thesis by simp
    next
      case (Some node')
      show ?thesis
      proof (cases "all_bound node'")
        case False
        show ?thesis
        proof (cases "db node'")
          case None
          with Cons Some False Suc.prems show ?thesis by simp
        next
          case (Some d)
          obtain y v where d: "d = (y, v)" by (cases d)
          from Cons \<open>propagate_all cs node = Some node'\<close> False Some d Suc.IH [OF Suc.prems]
          show ?thesis by simp
        qed
      next
        case True
        let ?a = "map var_min node'"
        show ?thesis
        proof (cases "x < length ?a")
          case False
          with Cons Some True Suc.prems show ?thesis by (simp add: Let_def)
        next
          case xl: True
          then have xn: "x < length node'" by simp
          have ax: "?a ! x = var_min (node' ! x)" using xn by simp
          have mem: "var_min (node' ! x) \<in> set (node' ! x)" using True xn by (rule bound_min_in)
          have below: "\<forall>a0 \<in> set found. ?a ! x < a0 ! x"
          proof
            fix a0 assume "a0 \<in> set found"
            with Suc.prems(1) have "Less x (a0 ! x) \<in> set cs" by simp
            from propagate_all_less [OF this Some] mem ax show "?a ! x < a0 ! x" by simp
          qed
          have inv1: "\<forall>a \<in> set (found @ [?a]). Less x (a ! x) \<in> set (Less x (?a ! x) # cs)"
            using Suc.prems(1) by auto
          have inv2: "sorted_wrt (\<lambda>u v. v < u) (observed x (found @ [?a]))"
            using Suc.prems(2) below by (auto simp: observed_def sorted_wrt_append)
          from Suc.IH [OF inv1 inv2] Cons Some True xl show ?thesis by (simp add: Let_def)
        qed
      qed
    qed
  qed
qed

text \<open>
  Two variables \<open>x\<close>, \<open>y\<close> in \<open>{0, 1, 2}\<close> with \<open>x \<noteq> y\<close>, and the objective \<open>z = 4 - x - y\<close>: the
  run finds \<open>(0, 1)\<close>, then \<open>(0, 2)\<close>, then \<open>(1, 2)\<close>.
\<close>

lemma ex_bb:
  "observed 2 (fst (run_search default_builder (Some 2) 100 [[0, 1, 2], [0, 1, 2], [0, 1, 2, 3, 4]]
      [Relation (\<lambda>a. a ! 0 \<noteq> a ! 1 \<and> a ! 2 = 4 - a ! 0 - a ! 1)])) = [3, 2, 1]"
  by code_simp

text \<open>
  Claim C1. In the LNS loop of wt.py the incumbent never gets worse. Whenever an
  iteration starts from an incumbent of value \<open>z\<close>, the inner \<open>solve\<close> is called with
  \<open>old_zbest = z\<close> and so posts \<open>Z < z\<close>; after the iteration either the incumbent
  pair is the one before (the inner search found nothing) or its value is strictly
  smaller. Hence the incumbent at the end of the loop is at most the one at its start.
  The imported solver is any engine whose solutions satisfy the posted constraints.
\<close>

theorem lns_incumbent_never_worsens:
  assumes "engine_sound slv" and "lns_zbest s = Some z"
  shows "(\<forall>s'. lns_iteration slv randint acts nsize s = Inr s' \<longrightarrow>
            (\<exists>relaxed g' preorder p. lns_relaxed randint acts nsize (lns_rng s) = Inr (relaxed, g')
               \<and> lns_preorder (lns_sbest s) relaxed = Inr preorder
               \<and> build_model acts (Some local_time_limit) 0 0 (Some preorder) (Some z) = Inr p
               \<and> ZLess z \<in> set (posted p))
            \<and> ((lns_zbest s' = Some z \<and> lns_sbest s' = lns_sbest s)
                 \<or> (\<exists>z'. lns_zbest s' = Some z' \<and> z' < z)))
       \<and> (\<forall>s'. lns_loop slv randint acts nsize best s = Inr s' \<longrightarrow>
            (\<exists>z'. lns_zbest s' = Some z' \<and> z' \<le> z))"
proof (intro conjI allI impI)
  fix s' assume it: "lns_iteration slv randint acts nsize s = Inr s'"
  from lns_iteration_posts_bound [OF it assms(2)]
  show "\<exists>relaxed g' preorder p. lns_relaxed randint acts nsize (lns_rng s) = Inr (relaxed, g')
               \<and> lns_preorder (lns_sbest s) relaxed = Inr preorder
               \<and> build_model acts (Some local_time_limit) 0 0 (Some preorder) (Some z) = Inr p
               \<and> ZLess z \<in> set (posted p)" .
  from lns_iteration_step [OF assms(1) it assms(2)]
  show "(lns_zbest s' = Some z \<and> lns_sbest s' = lns_sbest s) \<or> (\<exists>z'. lns_zbest s' = Some z' \<and> z' < z)" .
next
  fix s' assume "lns_loop slv randint acts nsize best s = Inr s'"
  from lns_loop_final [OF assms(1) this assms(2)]
  show "\<exists>z'. lns_zbest s' = Some z' \<and> z' \<le> z" .
qed

theorem lns_incumbent_never_worsens_witness:
  "engine_sound (filter_engine ex_cands 15000) \<and> lns_zbest ex_state = Some 3
   \<and> (\<exists>s'. lns_iteration (filter_engine ex_cands 15000) rnd_last ex_acts 5 ex_state = Inr s'
          \<and> lns_zbest s' = Some 2 \<and> lns_sbest s' = Some [1, 0])
   \<and> (\<exists>s'. lns_loop (filter_engine ex_cands 15000) rnd_last ex_acts 5 0 ex_state = Inr s'
          \<and> lns_zbest s' = Some 2 \<and> lns_cnt s' = 2)
   \<and> (\<exists>z'. Some (2::int) = Some z' \<and> z' \<le> 3)"
proof -
  have h1: "engine_sound (filter_engine ex_cands 15000)" by (rule filter_engine_sound)
  have h2: "lns_zbest ex_state = Some 3" by (simp add: ex_state_def)
  note t = lns_incumbent_never_worsens [OF h1 h2, of rnd_last ex_acts 5 0]
  have a: "\<exists>s'. lns_iteration (filter_engine ex_cands 15000) rnd_last ex_acts 5 ex_state = Inr s'
          \<and> lns_zbest s' = Some 2 \<and> lns_sbest s' = Some [1, 0]"
    by (simp add: ex_iteration)
  have b: "\<exists>s'. lns_loop (filter_engine ex_cands 15000) rnd_last ex_acts 5 0 ex_state = Inr s'
          \<and> lns_zbest s' = Some 2 \<and> lns_cnt s' = 2"
    by (simp add: ex_loop)
  from t b have c: "\<exists>z'. Some (2::int) = Some z' \<and> z' \<le> 3"
    by (auto simp: ex_loop)
  from h1 h2 a b c show ?thesis by blast
qed

text \<open>
  Claim C2. Within one run of the search with an objective variable to minimise, the
  values of the objective at successive solutions are strictly decreasing: after every
  solution the bound \<open>objective < value\<close> stays posted for the rest of the run, and a
  later solution has passed its propagation. This holds for every decision builder,
  every time limit, every root store and every set of initial constraints.
\<close>

theorem branch_and_bound_strictly_decreasing:
  "sorted_wrt (\<lambda>u v. v < u) (observed x (fst (run_search db (Some x) fuel root cs)))"
  unfolding run_search_def by (rule search_decreasing) (simp_all add: observed_def)

theorem branch_and_bound_strictly_decreasing_witness:
  "observed 2 (fst (run_search default_builder (Some 2) 100 [[0, 1, 2], [0, 1, 2], [0, 1, 2, 3, 4]]
      [Relation (\<lambda>a. a ! 0 \<noteq> a ! 1 \<and> a ! 2 = 4 - a ! 0 - a ! 1)])) = [3, 2, 1]
   \<and> sorted_wrt (\<lambda>u v. v < u) [3, 2, 1::int]"
  using branch_and_bound_strictly_decreasing [of 2 default_builder 100 "[[0, 1, 2], [0, 1, 2], [0, 1, 2, 3, 4]]"
      "[Relation (\<lambda>a. a ! 0 \<noteq> a ! 1 \<and> a ! 2 = 4 - a ! 0 - a ! 1)]"]
  by (simp only: ex_bb simp_thms)

text \<open>
  Claim C3. \<open>SetSuccByCost.Next\<close> is to assign to the chosen variable \<open>succ[tgt]\<close> the
  value \<open>k\<close> of least transition cost from unit \<open>tgt\<close> to unit \<open>k\<close>. The code ranks the
  values by \<open>self.ext_tcosts[k]\<close>, which is row \<open>k\<close> of the matrix, compared as a list.
  Below, three units and the fake unit: \<open>succ[0]\<close> has the smallest domain, \<open>{1, 2}\<close>; the
  transition from unit 0 to unit 1 costs 1 and the one to unit 2 costs 5, yet the
  builder assigns 2, because row 2 is smaller than row 1.
\<close>

theorem SetSuccByCost_ranks_rows:
  "SetSuccByCost_Next [[1, 2], [0, 2, 3], [0, 1, 3], [0, 1, 2]]
       [[0, 1, 5, 0], [9, 0, 2, 0], [3, 4, 0, 0], [0, 0, 0, 0]]
     = Inr (Some (AssignVariableValue (Succ 0) 2))
   \<and> [[0, 1, 5, 0], [9, 0, 2, 0], [3, 4, 0, 0], [0, 0, 0, 0::int]] ! 0 ! 1
       < [[0, 1, 5, 0], [9, 0, 2, 0], [3, 4, 0, 0], [0, 0, 0, 0::int]] ! 0 ! 2
   \<and> py_list_lt [3, 4, 0, 0] [9, 0, 2, 0]"
proof (intro conjI)
  show "SetSuccByCost_Next [[1, 2], [0, 2, 3], [0, 1, 3], [0, 1, 2]]
       [[0, 1, 5, 0], [9, 0, 2, 0], [3, 4, 0, 0], [0, 0, 0, 0]]
     = Inr (Some (AssignVariableValue (Succ 0) 2))"
    by code_simp
  show "[[0, 1, 5, 0], [9, 0, 2, 0], [3, 4, 0, 0], [0, 0, 0, 0::int]] ! 0 ! 1
       < [[0, 1, 5, 0], [9, 0, 2, 0], [3, 4, 0, 0], [0, 0, 0, 0::int]] ! 0 ! 2"
    by simp
  show "py_list_lt [3, 4, 0, 0] [9, 0, 2, 0]"
    by simp
qed

text \<open>
  Claim C4. When the first unbound \<open>succ\<close> variable is the last unit of the order by
  date, \<open>SetSuccBasedOnDates.Next\<close> is to assign it the first unit of that order. The
  code tests \<open>target_pos == len(self.date)\<close>, a value the position never takes
  (\<open>first_unbound_pos\<close>), and goes on to read \<open>idx[target_pos+1]\<close>. Below, one unit and the
  fake unit, dated 0 and 1; \<open>succ[0]\<close> is bound and \<open>succ[1]\<close> is not: the call raises
  \<open>IndexError\<close>.
\<close>

theorem SetSuccBasedOnDates_last_unit_raises:
  "SetSuccBasedOnDates_Next [[1], [0, 1]] [[0], [1]] = Inl IndexError"
  by code_simp

text \<open>
  Claim C5. With a random source that honours the contract of \<open>randint\<close> and a
  requested size \<open>sz \<ge> 0\<close>, both versions of \<open>random_draw\<close> return (they neither raise
  nor loop), the returned list has exactly \<open>min sz (len L)\<close> elements, and it consists of
  the elements of \<open>L\<close> at pairwise distinct positions: every position of \<open>L\<close> is drawn
  at most once. On an empty \<open>L\<close> the result is the empty list.
\<close>

theorem random_draw_samples_without_replacement:
  assumes "randint_ok randint" and "L < length h" and "0 \<le> sz"
  shows "(\<exists>R h' g' ps. random_draw_wt randint h L sz g = Inr (R, h', g')
            \<and> length (h' ! R) = min (nat sz) (length (h ! L))
            \<and> distinct ps \<and> set ps \<subseteq> {..<length (h ! L)} \<and> h' ! R = map ((!) (h ! L)) ps
            \<and> (h ! L = [] \<longrightarrow> h' ! R = []))
       \<and> (\<exists>R h' g' ps. random_draw_lns randint h L sz g = Inr (R, h', g')
            \<and> length (h' ! R) = min (nat sz) (length (h ! L))
            \<and> distinct ps \<and> set ps \<subseteq> {..<length (h ! L)} \<and> h' ! R = map ((!) (h ! L)) ps
            \<and> (h ! L = [] \<longrightarrow> h' ! R = []))"
proof -
  from draw_loop_total [OF assms(1)] obtain vL vR g' where
    d: "draw_loop randint sz (h ! L) [] g = Inr (vL, vR, g')" by blast
  from draw_loop_positions_of [OF d] obtain ps where
    ps: "distinct ps" "set ps \<subseteq> {..<length (h ! L)}" "vR = map ((!) (h ! L)) ps" by blast
  have len: "length vR = min (nat sz) (length (h ! L))"
    using draw_loop_from_empty_length(1) [OF d assms(3)] .
  have e: "h ! L = [] \<longrightarrow> vR = []" using len by auto
  have wt: "random_draw_wt randint h L sz g =
      Inr (Suc (length h), (h @ [h ! L, []])[length h := vL, Suc (length h) := vR], g')"
    using d by (simp add: random_draw_wt_unfold [OF assms(2)])
  have wtR: "((h @ [h ! L, []])[length h := vL, Suc (length h) := vR]) ! Suc (length h) = vR"
    by simp
  have lns: "random_draw_lns randint h L sz g =
      Inr (length h, (h @ [[]])[L := vL, length h := vR], g')"
    using d by (simp add: random_draw_lns_unfold [OF assms(2)])
  have lnsR: "((h @ [[]])[L := vL, length h := vR]) ! length h = vR"
    by simp
  show ?thesis
  proof (intro conjI)
    show "\<exists>R h' g' ps. random_draw_wt randint h L sz g = Inr (R, h', g')
            \<and> length (h' ! R) = min (nat sz) (length (h ! L))
            \<and> distinct ps \<and> set ps \<subseteq> {..<length (h ! L)} \<and> h' ! R = map ((!) (h ! L)) ps
            \<and> (h ! L = [] \<longrightarrow> h' ! R = [])"
      using wt wtR ps len e by (intro exI [of _ "Suc (length h)"] exI [of _ "(h @ [h ! L, []])[length h := vL, Suc (length h) := vR]"] exI [of _ g'] exI [of _ ps]) (simp only: simp_thms)
    show "\<exists>R h' g' ps. random_draw_lns randint h L sz g = Inr (R, h', g')
            \<and> length (h' ! R) = min (nat sz) (length (h ! L))
            \<and> distinct ps \<and> set ps \<subseteq> {..<length (h ! L)} \<and> h' ! R = map ((!) (h ! L)) ps
            \<and> (h ! L = [] \<longrightarrow> h' ! R = [])"
      using lns lnsR ps len e by (intro exI [of _ "length h"] exI [of _ "(h @ [[]])[L := vL, length h := vR]"] exI [of _ g'] exI [of _ ps]) (simp only: simp_thms)
  qed
qed

theorem random_draw_samples_without_replacement_witness:
  "randint_ok rnd_last \<and> (0::nat) < length [[10, 20, 30::int]] \<and> (0::int) \<le> 2
   \<and> random_draw_wt rnd_last [[10, 20, 30::int]] 0 2 () = Inr (2, [[10, 20, 30], [10], [30, 20]], ())
   \<and> random_draw_lns rnd_last [[10, 20, 30::int]] 0 2 () = Inr (1, [[10], [30, 20]], ())
   \<and> (\<exists>R h' g' ps. random_draw_wt rnd_last [[10, 20, 30::int]] 0 2 () = Inr (R, h', g')
         \<and> length (h' ! R) = min (nat 2) (length ([[10, 20, 30::int]] ! 0))
         \<and> distinct ps \<and> set ps \<subseteq> {..<length ([[10, 20, 30::int]] ! 0)}
         \<and> h' ! R = map ((!) ([[10, 20, 30::int]] ! 0)) ps
         \<and> ([[10, 20, 30::int]] ! 0 = [] \<longrightarrow> h' ! R = []))"
proof -
  have h1: "randint_ok rnd_last" by (simp add: randint_ok_def rnd_last_def)
  have h2: "(0::nat) < length [[10, 20, 30::int]]" by simp
  have h3: "(0::int) \<le> 2" by simp
  have e1: "random_draw_wt rnd_last [[10, 20, 30::int]] 0 2 () = Inr (2, [[10, 20, 30], [10], [30, 20]], ())"
    by (simp add: random_draw_wt_def alloc_def draw_loop.simps rnd_last_def py_norm_def)
  have e2: "random_draw_lns rnd_last [[10, 20, 30::int]] 0 2 () = Inr (1, [[10], [30, 20]], ())"
    by (simp add: random_draw_lns_def alloc_def draw_loop.simps rnd_last_def py_norm_def)
  from random_draw_samples_without_replacement [OF h1 h2 h3, of "()"] h1 h2 h3 e1 e2
  show ?thesis by blast
qed

text \<open>
  Claim C6. When the size of the neighbourhood is the number of activities, the draw
  relaxes every activity, the computed \<open>preorder\<close> is the empty list, and no precedence
  constraint is posted: \<open>solve\<close> builds the same model, and so returns the same result,
  as a call without \<open>preorder\<close> under the same bound. The feasible set of that model is
  the feasible set of the original problem cut by \<open>Z < zbest\<close>.
\<close>

theorem full_neighbourhood_is_full_resolve:
  assumes "randint_ok randint" and "nsize = int (length acts)"
    and "set sb \<subseteq> int ` {0..<length acts}"
  shows "\<exists>relaxed g'. lns_relaxed randint acts nsize g = Inr (relaxed, g')
      \<and> set relaxed = int ` {0..<length acts}
      \<and> lns_preorder (Some sb) relaxed = Inr []
      \<and> preorder_constraints (length acts) (Some []) = Inr []
      \<and> build_model acts time_limit strategy res_mode (Some []) (Some z)
          = build_model acts time_limit strategy res_mode None (Some z)
      \<and> solve slv acts time_limit strategy res_mode (Some []) (Some z) stop_after
          = solve slv acts time_limit strategy res_mode None (Some z) stop_after
      \<and> (\<forall>p0 p s. build_model acts time_limit strategy res_mode None None = Inr p0
            \<longrightarrow> build_model acts time_limit strategy res_mode (Some []) (Some z) = Inr p
            \<longrightarrow> feasible p s = (feasible p0 s \<and> z_value s < z))"
proof -
  from lns_relaxed_full [OF assms(1,2)] obtain relaxed g' where
    r: "lns_relaxed randint acts nsize g = Inr (relaxed, g')" "set relaxed = int ` {0..<length acts}"
    by blast
  have p: "lns_preorder (Some sb) relaxed = Inr []"
    using assms(3) r(2) by (intro lns_preorder_empty) simp
  have c: "preorder_constraints (length acts) (Some []) = Inr []"
    by (simp add: preorder_constraints_def)
  have f: "\<forall>p0 p s. build_model acts time_limit strategy res_mode None None = Inr p0
            \<longrightarrow> build_model acts time_limit strategy res_mode (Some []) (Some z) = Inr p
            \<longrightarrow> feasible p s = (feasible p0 s \<and> z_value s < z)"
  proof (intro allI impI)
    fix p0 p s
    assume a: "build_model acts time_limit strategy res_mode None None = Inr p0"
      and b: "build_model acts time_limit strategy res_mode (Some []) (Some z) = Inr p"
    from b have "build_model acts time_limit strategy res_mode None (Some z) = Inr p"
      by (simp only: build_model_empty_preorder)
    with a show "feasible p s = (feasible p0 s \<and> z_value s < z)"
      by (rule feasible_bound_only)
  qed
  have b: "build_model acts time_limit strategy res_mode (Some []) (Some z)
          = build_model acts time_limit strategy res_mode None (Some z)"
    by (rule build_model_empty_preorder)
  have sv: "solve slv acts time_limit strategy res_mode (Some []) (Some z) stop_after
          = solve slv acts time_limit strategy res_mode None (Some z) stop_after"
    by (rule solve_empty_preorder)
  show ?thesis
    by (intro exI [of _ relaxed] exI [of _ g'] conjI r p c b sv f)
qed

theorem full_neighbourhood_is_full_resolve_witness:
  "randint_ok rnd_last \<and> (2::int) = int (length ex_acts) \<and> set [0, 1] \<subseteq> int ` {0..<length ex_acts}
   \<and> lns_relaxed rnd_last ex_acts 2 () = Inr ([1, 0], ())
   \<and> lns_preorder (Some [0, 1]) [1, 0] = Inr []
   \<and> solve (filter_engine ex_cands 1500) ex_acts (Some 2000) 0 0 (Some []) (Some 3) (Some 1)
       = solve (filter_engine ex_cands 1500) ex_acts (Some 2000) 0 0 None (Some 3) (Some 1)"
proof -
  have h1: "randint_ok rnd_last" by (simp add: randint_ok_def rnd_last_def)
  have h2: "(2::int) = int (length ex_acts)" by (simp add: ex_acts_def)
  have h3: "set [0, 1] \<subseteq> int ` {0..<length ex_acts}" by (auto simp: ex_acts_def)
  have e1: "lns_relaxed rnd_last ex_acts 2 () = Inr ([1, 0], ())" by code_simp
  have e2: "lns_preorder (Some [0, 1]) [1, 0] = Inr []" by (simp add: lns_preorder_def)
  from full_neighbourhood_is_full_resolve [OF h1 h2 h3, of "()" "Some 2000" 0 0 3
      "filter_engine ex_cands 1500" "Some 1"]
  have e3: "solve (filter_engine ex_cands 1500) ex_acts (Some 2000) 0 0 (Some []) (Some 3) (Some 1)
       = solve (filter_engine ex_cands 1500) ex_acts (Some 2000) 0 0 None (Some 3) (Some 1)"
    by (elim exE conjE)
  from h1 h2 h3 e1 e2 e3 show ?thesis by (intro conjI)
qed

text \<open>
  Claim C7. A run is to be reported as timed out only when a time limit was configured
  and exceeded. The code does otherwise: \<open>solve\<close> ends with \<open>if time > time_limit\<close>, and
  with \<open>time_limit=None\<close> that comparison is true in Python 2. Here the search has no
  time limit, takes 5 ms and exhausts its two solutions, and the last line printed is
  the time-limit message. (By \<open>solve_no_limit_message\<close> this happens on every call
  without a time limit.)
\<close>

theorem solve_without_limit_reports_timeout:
  "solve (filter_engine ex_cands 5) ex_acts None 0 0 None None None =
     Inr (5, 3, Some 2, Some [1, 0],
          [SolutionFound 3, Sequence [0, 1], SolutionFound 2, Sequence [1, 0], BestSolutionFound 2,
           NumberOfBranches 3, ComputationTime 5, TimeLimitExceeded])"
  by code_simp

text \<open>
  Claim C9. \<open>random_draw\<close> of wt.py leaves every list object of the caller as it was,
  its argument included: it draws from a copy. \<open>random_draw\<close> of shiftsched\_lns.py
  changes the caller's list: after a call that returns \<open>R\<close>, the argument holds the
  elements of the original list at the positions that were not drawn, in their order,
  so its length has gone down by \<open>len(R)\<close>; no other object of the caller changes.
\<close>

theorem random_draw_effect_on_input:
  assumes "L < length h"
  shows "(random_draw_wt randint h L sz g = Inr (R, h', g') \<longrightarrow> (\<forall>a < length h. h' ! a = h ! a))
       \<and> (random_draw_lns randint h L sz g = Inr (R, h', g') \<longrightarrow>
            (\<exists>ps. distinct ps \<and> set ps \<subseteq> {..<length (h ! L)}
               \<and> h' ! R = map ((!) (h ! L)) ps
               \<and> h' ! L = map ((!) (h ! L)) (filter (\<lambda>p. p \<notin> set ps) [0..<length (h ! L)])
               \<and> length (h' ! L) + length (h' ! R) = length (h ! L))
            \<and> (\<forall>a < length h. a \<noteq> L \<longrightarrow> h' ! a = h ! a))"
proof (intro conjI impI)
  assume "random_draw_wt randint h L sz g = Inr (R, h', g')"
  from random_draw_wt_result [OF this assms] show "\<forall>a < length h. h' ! a = h ! a" by blast
next
  assume r: "random_draw_lns randint h L sz g = Inr (R, h', g')"
  from random_draw_lns_result [OF r assms] obtain vL vR where
    d: "draw_loop randint sz (h ! L) [] g = Inr (vL, vR, g')" and R: "h' ! R = vR" and L: "h' ! L = vL"
    by blast
  from draw_loop_positions_of [OF d] obtain ps where
    ps: "distinct ps" "set ps \<subseteq> {..<length (h ! L)}" "vR = map ((!) (h ! L)) ps"
      "vL = map ((!) (h ! L)) (filter (\<lambda>p. p \<notin> set ps) [0..<length (h ! L)])" by blast
  from draw_loop_length [OF d] have "length vL + length vR = length (h ! L)" by simp
  with ps R L show "\<exists>ps. distinct ps \<and> set ps \<subseteq> {..<length (h ! L)}
               \<and> h' ! R = map ((!) (h ! L)) ps
               \<and> h' ! L = map ((!) (h ! L)) (filter (\<lambda>p. p \<notin> set ps) [0..<length (h ! L)])
               \<and> length (h' ! L) + length (h' ! R) = length (h ! L)"
    by (intro exI [of _ ps]) simp
  from random_draw_lns_result [OF r assms] show "\<forall>a < length h. a \<noteq> L \<longrightarrow> h' ! a = h ! a" by blast
qed

theorem random_draw_effect_on_input_witness:
  "(0::nat) < length [[10, 20, 30::int]]
   \<and> random_draw_wt rnd_last [[10, 20, 30::int]] 0 2 () = Inr (2, [[10, 20, 30], [10], [30, 20]], ())
   \<and> [[10, 20, 30], [10], [30, 20]] ! 0 = [[10, 20, 30::int]] ! 0
   \<and> random_draw_lns rnd_last [[10, 20, 30::int]] 0 2 () = Inr (1, [[10], [30, 20]], ())
   \<and> length ([[10], [30, 20::int]] ! 0) + length ([[10], [30, 20::int]] ! 1) = length ([[10, 20, 30::int]] ! 0)"
proof -
  have h: "(0::nat) < length [[10, 20, 30::int]]" by simp
  have e1: "random_draw_wt rnd_last [[10, 20, 30::int]] 0 2 () = Inr (2, [[10, 20, 30], [10], [30, 20]], ())"
    by (simp add: random_draw_wt_def alloc_def draw_loop.simps rnd_last_def py_norm_def)
  have e2: "random_draw_lns rnd_last [[10, 20, 30::int]] 0 2 () = Inr (1, [[10], [30, 20]], ())"
    by (simp add: random_draw_lns_def alloc_def draw_loop.simps rnd_last_def py_norm_def)
  from random_draw_effect_on_input [OF h, of rnd_last 2 "()" 2 "[[10, 20, 30], [10], [30, 20]]" "()"] e1
  have a: "[[10, 20, 30], [10], [30, 20]] ! 0 = [[10, 20, 30::int]] ! 0" by simp
  from random_draw_effect_on_input [OF h, of rnd_last 2 "()" 1 "[[10], [30, 20]]" "()"] e2
  have b: "length ([[10], [30, 20::int]] ! 0) + length ([[10], [30, 20::int]] ! 1) = length ([[10, 20, 30::int]] ! 0)"
    by simp
  from h e1 e2 a b show ?thesis by blast
qed

text \<open>
  Claim C10. For activities whose weights are all nonnegative and a permutation
  \<open>sbest\<close> of the activity indices, both cost helpers of wt.py return, and entry by
  entry \<open>compute_costs\<close> is \<open>compute_weighted_slack\<close> clamped at zero from below; so no
  entry of \<open>compute_costs\<close> is negative.
\<close>

theorem compute_costs_clamps_slack:
  assumes "\<forall>a \<in> set acts. 0 \<le> wgt a"
    and "mset sbest = mset (map int [0..<length acts])"
  shows "\<exists>cs ws. compute_costs acts sbest = Inr cs \<and> compute_weighted_slack acts sbest = Inr ws
      \<and> length cs = length acts \<and> length ws = length acts
      \<and> (\<forall>i < length acts. cs ! i = max 0 (ws ! i) \<and> 0 \<le> cs ! i)"
proof -
  from starts_of_total [OF assms(2)] obtain starts where st: "starts_of acts sbest = Inr starts" ..
  define ws where "ws = map (\<lambda>(i, a). (starts ! i - dln a) * wgt a) (enumerate 0 acts)"
  have w: "compute_weighted_slack acts sbest = Inr ws"
    using st by (simp add: compute_weighted_slack_def ws_def)
  have c: "compute_costs acts sbest = Inr (map (max 0) ws)"
    using costs_of_slack [OF assms(1), of sbest] w by simp
  have l: "length ws = length acts" by (simp add: ws_def)
  show ?thesis using w c l by simp
qed

theorem compute_costs_clamps_slack_witness:
  "0 \<le> wgt \<lparr>dur = 3, dln = 2, wgt = 2\<rparr> \<and> 0 \<le> wgt \<lparr>dur = 1, dln = 0, wgt = 1\<rparr>
   \<and> mset [1, 0] = mset (map int [0..<length [\<lparr>dur = 3, dln = 2, wgt = 2\<rparr>, \<lparr>dur = 1, dln = 0, wgt = 1\<rparr>]])
   \<and> compute_costs [\<lparr>dur = 3, dln = 2, wgt = 2\<rparr>, \<lparr>dur = 1, dln = 0, wgt = 1\<rparr>] [1, 0] = Inr [0, 0]
   \<and> compute_weighted_slack [\<lparr>dur = 3, dln = 2, wgt = 2\<rparr>, \<lparr>dur = 1, dln = 0, wgt = 1\<rparr>] [1, 0] = Inr [-2, 0]"
proof -
  let ?acts = "[\<lparr>dur = 3, dln = 2, wgt = 2\<rparr>, \<lparr>dur = 1, dln = 0, wgt = 1\<rparr>]"
  have h1: "\<forall>a \<in> set ?acts. 0 \<le> wgt a" by simp
  have h2: "mset [1, 0] = mset (map int [0..<length ?acts])" by (simp add: upt_rec)
  have w: "compute_weighted_slack ?acts [1, 0] = Inr [-2, 0]"
    by (simp add: compute_weighted_slack_def starts_of_def start_of_def sum_dur_def py_get_def
        py_norm_def upt_rec enumerate_eq_zip)
  from compute_costs_clamps_slack [OF h1 h2] obtain cs ws where
    c: "compute_costs ?acts [1, 0] = Inr cs" and w': "compute_weighted_slack ?acts [1, 0] = Inr ws"
    and l: "length cs = length ?acts"
    and e: "\<forall>i < length ?acts. cs ! i = max 0 (ws ! i) \<and> 0 \<le> cs ! i" by blast
  from w w' have ws: "ws = [-2, 0]" by simp
  from e have "cs ! 0 = max 0 (ws ! 0)" "cs ! 1 = max 0 (ws ! 1)" by simp_all
  with ws have "cs ! 0 = 0" "cs ! 1 = 0" by simp_all
  with l have "cs = [0, 0]" by (cases cs; cases "tl cs") auto
  with h2 c w show ?thesis by simp
qed

end
